theory Spec2Isabelle
  imports Main "HOL-Library.AList"
begin

section \<open>The client: \<open>src/index.ts\<close>\<close>

subsection \<open>Data\<close>

text \<open>
  Objects that the code only stores as a back-reference (\<open>event.ndk = this\<close>,
  \<open>user.ndk = this\<close>) are referred to by an object reference.
\<close>

type_synonym ndk_ref = nat

text \<open>
  \<open>NDKEvent\<close> is declared outside \<open>src/\<close>. The record keeps what \<open>index.ts\<close> reads or
  writes: the value of \<open>event.tagId()\<close> (the identity key), \<open>created_at\<close>, the
  back-reference \<open>ndk\<close>, and the rest of the payload, which tells two copies with one
  identity apart.
\<close>

record NDKEvent =
  tagId :: string
  created_at :: nat
  content :: string
  ndk :: "ndk_ref option"

record NDKUser =
  npub :: string
  user_ndk :: "ndk_ref option"

text \<open>An \<open>NDKSigner\<close> is known here through what its \<open>user()\<close> resolves with.\<close>

record NDKSigner =
  signer_user :: NDKUser

record NDKConstructorParams =
  explicitRelayUrls :: "string list option"
  devWriteRelayUrls :: "string list option"
  signer_param :: "NDKSigner option"

record 'rs NDK =
  pool :: "string list"
  signer :: "NDKSigner option"
  devWriteRelaySet :: "'rs option"

text \<open>
  The constructor. \<open>NDKRelaySet.fromRelayUrls\<close> is outside \<open>src/\<close> and is a parameter.
  An array, also the empty one, is truthy in JavaScript, so \<open>devWriteRelaySet\<close> is set
  exactly when \<open>devWriteRelayUrls\<close> is given.
\<close>

definition NDK_new :: "(string list \<Rightarrow> 'rs) \<Rightarrow> NDKConstructorParams \<Rightarrow> 'rs NDK" where
  "NDK_new fromRelayUrls opts =
     \<lparr> pool = (case explicitRelayUrls opts of None \<Rightarrow> [] | Some urls \<Rightarrow> urls),
       signer = signer_param opts,
       devWriteRelaySet =
         (case devWriteRelayUrls opts of
            None \<Rightarrow> None
          | Some urls \<Rightarrow> Some (fromRelayUrls urls)) \<rparr>"

subsection \<open>Promises\<close>

text \<open>
  A promise is pending, resolved or rejected; \<open>resolve\<close> and \<open>reject\<close> act on a pending
  promise only, as the ones handed to a \<open>new Promise\<close> executor do.
\<close>

datatype ('a, 'r) promise = Pending | Resolved 'a | Rejected 'r

fun resolve :: "('a, 'r) promise \<Rightarrow> 'a \<Rightarrow> ('a, 'r) promise" where
  "resolve Pending v = Resolved v"
| "resolve p v = p"

fun reject :: "('a, 'r) promise \<Rightarrow> 'r \<Rightarrow> ('a, 'r) promise" where
  "reject Pending r = Rejected r"
| "reject p r = p"

subsection \<open>getUser\<close>

record GetUserParams =
  npub_param :: string

text \<open>
  \<open>getUser\<close> builds an \<open>NDKUser\<close> from its parameters and sets the back-reference. The
  class is outside \<open>src/\<close>; the only parameter \<open>src/\<close> ever passes is \<open>npub\<close>.
\<close>

definition getUser :: "ndk_ref \<Rightarrow> GetUserParams \<Rightarrow> NDKUser" where
  "getUser this opts = \<lparr> npub = npub_param opts, user_ndk = Some this \<rparr>"

subsection \<open>subscribe\<close>

text \<open>\<open>{...opts, closeOnEose: true}\<close>: the caller's options, and the flag.\<close>

record 'o NDKSubscriptionOptions =
  filterOptions :: 'o
  closeOnEose :: bool

record ('f, 'o, 'rs) NDKSubscription =
  sub_ndk :: ndk_ref
  sub_filter :: 'f
  sub_opts :: "'o NDKSubscriptionOptions option"
  sub_relaySet :: "'rs option"
  started :: bool

definition start :: "('f, 'o, 'rs) NDKSubscription \<Rightarrow> ('f, 'o, 'rs) NDKSubscription" where
  "start s = s\<lparr>started := True\<rparr>"

definition subscribe ::
  "ndk_ref \<Rightarrow> 'f \<Rightarrow> 'o NDKSubscriptionOptions option \<Rightarrow> 'rs option \<Rightarrow> ('f, 'o, 'rs) NDKSubscription"
where
  "subscribe this f opts rs =
     start \<lparr> sub_ndk = this, sub_filter = f, sub_opts = opts, sub_relaySet = rs, started = False \<rparr>"

text \<open>
  What a Subscription hands to its listeners: an \<open>'event'\<close> notification with the event,
  or \<open>'eose'\<close>, the overall stream-end. The Subscription class is outside \<open>src/\<close>; the
  functions below run a caller's listeners over the notifications it delivers, in order.
\<close>

datatype notification = Event NDKEvent | Eose

subsection \<open>publish\<close>

text \<open>The call \<open>relaySet.publish(event)\<close> whose promise \<open>publish\<close> returns.\<close>

datatype 'rs delivery = RelaySet_publish 'rs NDKEvent

text \<open>
  \<open>calculateRelaySetFromEvent\<close> is outside \<open>src/\<close> and is a parameter. A relay set is
  an object, hence truthy: \<open>!relaySet\<close> holds exactly when the argument is missing, and
  \<open>||\<close> takes \<open>devWriteRelaySet\<close> exactly when it is set.
\<close>

definition publish ::
  "('rs NDK \<Rightarrow> NDKEvent \<Rightarrow> 'rs) \<Rightarrow> 'rs NDK \<Rightarrow> NDKEvent \<Rightarrow> 'rs option \<Rightarrow> 'rs delivery"
where
  "publish calculateRelaySetFromEvent this event relaySet =
     (let relaySet' =
        (if relaySet = None
         then (case devWriteRelaySet this of
                 Some dev \<Rightarrow> dev
               | None \<Rightarrow> calculateRelaySetFromEvent this event)
         else the relaySet)
      in RelaySet_publish relaySet' event)"

subsection \<open>fetchEvent\<close>

text \<open>The \<open>'event'\<close> listener of \<open>fetchEvent\<close>; it registers no \<open>'eose'\<close> listener.\<close>

fun fetchEvent_listener ::
  "ndk_ref \<Rightarrow> (NDKEvent, 'r) promise \<Rightarrow> notification \<Rightarrow> (NDKEvent, 'r) promise"
where
  "fetchEvent_listener this p (Event event) = resolve p (event\<lparr>ndk := Some this\<rparr>)"
| "fetchEvent_listener this p Eose = p"

text \<open>
  \<open>fetchEvent\<close>: the Subscription it starts, and the state of the promise it returns once
  the Subscription has delivered \<open>ns\<close>.
\<close>

definition fetchEvent ::
  "ndk_ref \<Rightarrow> 'f \<Rightarrow> 'o \<Rightarrow> notification list
     \<Rightarrow> ('f, 'o, 'rs) NDKSubscription \<times> (NDKEvent, 'r) promise"
where
  "fetchEvent this f opts ns =
     (let s = subscribe this f (Some \<lparr> filterOptions = opts, closeOnEose = True \<rparr>) None
      in (s, foldl (fetchEvent_listener this) Pending ns))"

subsection \<open>fetchEvents\<close>

text \<open>
  Modelled from the spec: \<open>dedupEvent\<close> (\<open>events/dedup.js\<close>) is outside \<open>src/\<close>. The copy
  with the later timestamp wins; on a tie the choice is implementation-defined but
  deterministic, so it is a parameter: \<open>first_on_tie\<close> says whether the first copy is kept.
\<close>

definition dedupEvent :: "(NDKEvent \<Rightarrow> NDKEvent \<Rightarrow> bool) \<Rightarrow> NDKEvent \<Rightarrow> NDKEvent \<Rightarrow> NDKEvent" where
  "dedupEvent first_on_tie event1 event2 =
     (if created_at event1 > created_at event2 then event1
      else if created_at event2 > created_at event1 then event2
      else if first_on_tie event1 event2 then event1 else event2)"

text \<open>
  The state of one \<open>fetchEvents\<close> call: the \<open>Map\<close> \<open>events\<close>, in insertion order as a
  JavaScript \<open>Map\<close> keeps it (\<open>set\<close> on a key that is present replaces the value in place,
  on a new key appends), and the promise, which resolves with the values of the map.
\<close>

type_synonym 'r fetchEvents_state = "(string \<times> NDKEvent) list \<times> (NDKEvent list, 'r) promise"

fun fetchEvents_listener ::
  "(NDKEvent \<Rightarrow> NDKEvent \<Rightarrow> bool) \<Rightarrow> ndk_ref \<Rightarrow> 'r fetchEvents_state \<Rightarrow> notification
     \<Rightarrow> 'r fetchEvents_state"
where
  "fetchEvents_listener tie this (events, p) (Event event) =
     (let event' =
        (case map_of events (tagId event) of
           Some existingEvent \<Rightarrow> dedupEvent tie existingEvent event
         | None \<Rightarrow> event);
          event'' = event'\<lparr>ndk := Some this\<rparr>
      in (AList.update (tagId event'') event'' events, p))"
| "fetchEvents_listener tie this (events, p) Eose = (events, resolve p (map snd events))"

definition fetchEvents ::
  "(NDKEvent \<Rightarrow> NDKEvent \<Rightarrow> bool) \<Rightarrow> ndk_ref \<Rightarrow> 'f \<Rightarrow> 'o \<Rightarrow> notification list
     \<Rightarrow> ('f, 'o, 'rs) NDKSubscription \<times> (NDKEvent list, 'r) promise"
where
  "fetchEvents tie this f opts ns =
     (let s = subscribe this f (Some \<lparr> filterOptions = opts, closeOnEose = True \<rparr>) None
      in (s, snd (foldl (fetchEvents_listener tie this) ([], Pending) ns)))"

subsection \<open>assertSigner\<close>

text \<open>What \<open>assertSigner\<close> does, in program order.\<close>

datatype action = Emit string | Throw string

definition assertSigner :: "'rs NDK \<Rightarrow> action list" where
  "assertSigner this =
     (if signer this = None
      then [Emit ''signerRequired'', Throw ''Signer required'']
      else [])"

text \<open>
  \<open>a\<close> happens strictly before \<open>b\<close> in a trace: \<open>b\<close> occurs, and only after the first
  \<open>a\<close>.
\<close>

definition strictly_before :: "action \<Rightarrow> action \<Rightarrow> action list \<Rightarrow> bool" where
  "strictly_before a b tr =
     (a \<noteq> b \<and> b \<notin> set (takeWhile (\<lambda>x. x \<noteq> a) tr) \<and> b \<in> set (dropWhile (\<lambda>x. x \<noteq> a) tr))"

fun is_Throw :: "action \<Rightarrow> bool" where
  "is_Throw (Throw msg) = True"
| "is_Throw (Emit name) = False"

definition fails :: "action list \<Rightarrow> bool" where
  "fails tr = list_ex is_Throw tr"

text \<open>The events among the notifications a Subscription delivers, in order.\<close>

fun events_of :: "notification list \<Rightarrow> NDKEvent list" where
  "events_of [] = []"
| "events_of (Event e # ns) = e # events_of ns"
| "events_of (Eose # ns) = events_of ns"

text \<open>
  What the map of \<open>fetchEvents\<close> holds for a key, given the set \<open>S\<close> of events seen so
  far: one of the copies seen with that identity, with the back-reference set, and no
  copy seen with that identity is later.
\<close>

definition entry_ok :: "ndk_ref \<Rightarrow> NDKEvent set \<Rightarrow> string \<Rightarrow> NDKEvent \<Rightarrow> bool" where
  "entry_ok this S k e \<longleftrightarrow>
     tagId e = k
     \<and> (\<exists>e0 \<in> S. e = e0\<lparr>ndk := Some this\<rparr>)
     \<and> (\<forall>e' \<in> S. tagId e' = k \<longrightarrow> created_at e' \<le> created_at e)"

text \<open>The invariant of the map: its keys are the identities seen, each with its entry.\<close>

definition merged :: "ndk_ref \<Rightarrow> (string \<times> NDKEvent) list \<Rightarrow> NDKEvent set \<Rightarrow> bool" where
  "merged this al S \<longleftrightarrow>
     distinct (map fst al)
     \<and> fst ` set al = tagId ` S
     \<and> (\<forall>x \<in> set al. entry_ok this S (fst x) (snd x))"

section \<open>The remote signer: \<open>NDKNip46Signer\<close> (\<open>src/unnamed/part_000\<close>)\<close>

subsection \<open>JSON.parse\<close>

text \<open>
  The listener of \<open>sign\<close> calls the built-in \<open>JSON.parse\<close> on the result of the response
  and reads the property \<open>sig\<close> of what it returns. The values of JSON; a number keeps
  its lexeme, an object its members in source order.
\<close>

datatype json =
    JNull
  | JBool bool
  | JNumber string
  | JString string
  | JArray "json list"
  | JObject "(string \<times> json) list"

definition is_ws :: "char \<Rightarrow> bool" where
  "is_ws c \<longleftrightarrow> c = CHR 0x20 \<or> c = CHR 0x09 \<or> c = CHR 0x0A \<or> c = CHR 0x0D"

definition skip_ws :: "string \<Rightarrow> string" where
  "skip_ws s = dropWhile is_ws s"

definition is_digit :: "char \<Rightarrow> bool" where
  "is_digit c \<longleftrightarrow> (48::nat) \<le> of_char c \<and> of_char c \<le> (57::nat)"

definition hex_digit :: "char \<Rightarrow> nat option" where
  "hex_digit c =
     (let n = (of_char c :: nat) in
      if 48 \<le> n \<and> n \<le> 57 then Some (n - 48)
      else if 97 \<le> n \<and> n \<le> 102 then Some (n - 87)
      else if 65 \<le> n \<and> n \<le> 70 then Some (n - 55)
      else None)"

definition hex4 :: "char \<Rightarrow> char \<Rightarrow> char \<Rightarrow> char \<Rightarrow> nat option" where
  "hex4 a b c d =
     (case (hex_digit a, hex_digit b, hex_digit c, hex_digit d) of
        (Some x, Some y, Some z, Some w) \<Rightarrow> Some (((x * 16 + y) * 16 + z) * 16 + w)
      | _ \<Rightarrow> None)"

text \<open>
  Strings are byte strings here: the code unit of a \<open>\uXXXX\<close> escape is kept as its UTF-8
  bytes.
\<close>

definition utf8 :: "nat \<Rightarrow> string" where
  "utf8 n =
     (if n < 128 then [char_of n]
      else if n < 2048 then [char_of (192 + n div 64), char_of (128 + n mod 64)]
      else [char_of (224 + n div 4096), char_of (128 + (n div 64) mod 64), char_of (128 + n mod 64)])"

definition simple_escape :: "char \<Rightarrow> char option" where
  "simple_escape e =
     (if e = CHR 0x22 then Some (CHR 0x22)
      else if e = CHR 0x5C then Some (CHR 0x5C)
      else if e = CHR ''/'' then Some (CHR ''/'')
      else if e = CHR ''b'' then Some (CHR 0x08)
      else if e = CHR ''f'' then Some (CHR 0x0C)
      else if e = CHR ''n'' then Some (CHR 0x0A)
      else if e = CHR ''r'' then Some (CHR 0x0D)
      else if e = CHR ''t'' then Some (CHR 0x09)
      else None)"

definition prepend :: "string \<Rightarrow> (string \<times> string) option \<Rightarrow> (string \<times> string) option" where
  "prepend pre r = (case r of None \<Rightarrow> None | Some (s, rest) \<Rightarrow> Some (pre @ s, rest))"

text \<open>The characters of a string after its opening quote, and what follows the closing one.\<close>

fun parse_string_body :: "string \<Rightarrow> (string \<times> string) option" where
  "parse_string_body [] = None"
| "parse_string_body (c # cs) =
     (if c = CHR 0x22 then Some ([], cs)
      else if c = CHR 0x5C then
        (case cs of
           [] \<Rightarrow> None
         | e # cs' \<Rightarrow>
             if e = CHR ''u'' then
               (case cs' of
                  h1 # h2 # h3 # h4 # cs'' \<Rightarrow>
                    (case hex4 h1 h2 h3 h4 of
                       None \<Rightarrow> None
                     | Some n \<Rightarrow> prepend (utf8 n) (parse_string_body cs''))
                | _ \<Rightarrow> None)
             else
               (case simple_escape e of
                  None \<Rightarrow> None
                | Some ch \<Rightarrow> prepend [ch] (parse_string_body cs')))
      else if (of_char c :: nat) < 32 then None
      else prepend [c] (parse_string_body cs))"

definition parse_digits :: "string \<Rightarrow> (string \<times> string) option" where
  "parse_digits s =
     (if takeWhile is_digit s = [] then None
      else Some (takeWhile is_digit s, dropWhile is_digit s))"

definition parse_int_part :: "string \<Rightarrow> (string \<times> string) option" where
  "parse_int_part s =
     (case s of
        [] \<Rightarrow> None
      | d # r \<Rightarrow> if d = CHR ''0'' then Some ([d], r) else parse_digits s)"

definition parse_frac :: "string \<Rightarrow> (string \<times> string) option" where
  "parse_frac s =
     (case s of
        [] \<Rightarrow> Some ([], s)
      | c # r \<Rightarrow> if c = CHR ''.'' then prepend [c] (parse_digits r) else Some ([], s))"

definition parse_exp :: "string \<Rightarrow> (string \<times> string) option" where
  "parse_exp s =
     (case s of
        [] \<Rightarrow> Some ([], s)
      | c # r \<Rightarrow>
          if c = CHR ''e'' \<or> c = CHR ''E'' then
            (case r of
               [] \<Rightarrow> None
             | g # r' \<Rightarrow>
                 if g = CHR ''+'' \<or> g = CHR ''-'' then prepend [c, g] (parse_digits r')
                 else prepend [c] (parse_digits r))
          else Some ([], s))"

definition parse_number :: "string \<Rightarrow> (string \<times> string) option" where
  "parse_number s =
     (let (sign, s1) = (case s of [] \<Rightarrow> ([], s) | c # r \<Rightarrow> if c = CHR ''-'' then ([c], r) else ([], s))
      in case parse_int_part s1 of
           None \<Rightarrow> None
         | Some (i, s2) \<Rightarrow>
             (case parse_frac s2 of
                None \<Rightarrow> None
              | Some (f, s3) \<Rightarrow> prepend (sign @ i @ f) (parse_exp s3)))"

definition parse_literal :: "string \<Rightarrow> (json \<times> string) option" where
  "parse_literal s =
     (if take 4 s = ''true'' then Some (JBool True, drop 4 s)
      else if take 5 s = ''false'' then Some (JBool False, drop 5 s)
      else if take 4 s = ''null'' then Some (JNull, drop 4 s)
      else (case parse_number s of None \<Rightarrow> None | Some (lexeme, r) \<Rightarrow> Some (JNumber lexeme, r)))"

text \<open>
  Values, the elements of an array after \<open>[\<close> and the members of an object after \<open>{\<close>.
  The first argument bounds the number of nested calls.
\<close>

fun parse_value :: "nat \<Rightarrow> string \<Rightarrow> (json \<times> string) option"
  and parse_elements :: "nat \<Rightarrow> string \<Rightarrow> (json list \<times> string) option"
  and parse_members :: "nat \<Rightarrow> string \<Rightarrow> ((string \<times> json) list \<times> string) option"
where
  "parse_value 0 s = None"
| "parse_value (Suc n) s =
     (case s of
        [] \<Rightarrow> None
      | c # cs \<Rightarrow>
          if c = CHR ''{'' then
            (case skip_ws cs of
               [] \<Rightarrow> None
             | d # r \<Rightarrow>
                 if d = CHR ''}'' then Some (JObject [], r)
                 else (case parse_members n (d # r) of
                         None \<Rightarrow> None
                       | Some (ms, r') \<Rightarrow> Some (JObject ms, r')))
          else if c = CHR ''['' then
            (case skip_ws cs of
               [] \<Rightarrow> None
             | d # r \<Rightarrow>
                 if d = CHR '']'' then Some (JArray [], r)
                 else (case parse_elements n (d # r) of
                         None \<Rightarrow> None
                       | Some (vs, r') \<Rightarrow> Some (JArray vs, r')))
          else if c = CHR 0x22 then
            (case parse_string_body cs of
               None \<Rightarrow> None
             | Some (str, r) \<Rightarrow> Some (JString str, r))
          else parse_literal s)"
| "parse_elements 0 s = None"
| "parse_elements (Suc n) s =
     (case parse_value n s of
        None \<Rightarrow> None
      | Some (v, r) \<Rightarrow>
          (case skip_ws r of
             [] \<Rightarrow> None
           | c # r' \<Rightarrow>
               if c = CHR '','' then
                 (case parse_elements n (skip_ws r') of
                    None \<Rightarrow> None
                  | Some (vs, r'') \<Rightarrow> Some (v # vs, r''))
               else if c = CHR '']'' then Some ([v], r')
               else None))"
| "parse_members 0 s = None"
| "parse_members (Suc n) s =
     (case s of
        [] \<Rightarrow> None
      | q # cs \<Rightarrow>
          if q = CHR 0x22 then
            (case parse_string_body cs of
               None \<Rightarrow> None
             | Some (k, r) \<Rightarrow>
                 (case skip_ws r of
                    [] \<Rightarrow> None
                  | c # r1 \<Rightarrow>
                      if c = CHR '':'' then
                        (case parse_value n (skip_ws r1) of
                           None \<Rightarrow> None
                         | Some (v, r2) \<Rightarrow>
                             (case skip_ws r2 of
                                [] \<Rightarrow> None
                              | d # r3 \<Rightarrow>
                                  if d = CHR '','' then
                                    (case parse_members n (skip_ws r3) of
                                       None \<Rightarrow> None
                                     | Some (ms, r4) \<Rightarrow> Some ((k, v) # ms, r4))
                                  else if d = CHR ''}'' then Some ([(k, v)], r3)
                                  else None))
                      else None))
          else None)"

text \<open>
  \<open>JSON.parse\<close>: \<open>None\<close> is the \<open>SyntaxError\<close> it throws. The bound passed is never
  reached, as lemma \<open>JSON_parse_fuel\<close> below shows.
\<close>

definition JSON_parse :: "string \<Rightarrow> json option" where
  "JSON_parse s =
     (case parse_value (2 * length s + 2) (skip_ws s) of
        None \<Rightarrow> None
      | Some (v, r) \<Rightarrow> if skip_ws r = [] then Some v else None)"

text \<open>
  Reading \<open>json.sig\<close>: on \<open>null\<close> it throws a \<open>TypeError\<close> (\<open>None\<close>); on an object it is
  the last member of that name, or \<open>undefined\<close>; on any other value it is \<open>undefined\<close>.
\<close>

datatype jsvalue = Undefined | Value json

fun get_sig :: "json \<Rightarrow> jsvalue option" where
  "get_sig JNull = None"
| "get_sig (JObject ms) =
     Some (case map_of (rev ms) ''sig'' of None \<Rightarrow> Undefined | Some v \<Rightarrow> Value v)"
| "get_sig j = Some Undefined"

subsection \<open>The RPC layer as the signer uses it\<close>

text \<open>
  \<open>NDKRpcResponse\<close> as \<open>rpc.js\<close> declares it for the listeners: the correlation id, the
  result and the optional error.
\<close>

record NDKRpcResponse =
  resp_id :: string
  result :: string
  error :: "string option"

text \<open>
  A parameter of a request: a string, or \<open>JSON.stringify(event)\<close>, kept as the event it
  serialises.
\<close>

datatype 'ev rpc_param = Literal string | Stringified 'ev

record 'ev rpc_request =
  req_target :: string
  req_method :: string
  req_params :: "'ev rpc_param list"
  req_id :: string

record rpc_filter =
  kinds :: "nat list"
  p_tags :: "string list"

text \<open>
  What a promise of the signer resolves with (\<open>resolve(user)\<close>, \<open>resolve(json.sig)\<close>, and
  the result payload for the completion handle of \<open>sendRequest\<close>) and what it is rejected
  with (\<open>new Error(...)\<close>, or the error of a response, which may be \<open>undefined\<close>).
\<close>

datatype rvalue = UserValue NDKUser | SigValue jsvalue | ResultValue string

datatype reason = Error string | Payload "string option"

type_synonym handle = nat

text \<open>
  The closures registered for a response: the two that the signer registers with
  \<open>rpc.once\<close>, each with the promise whose \<open>resolve\<close> and \<open>reject\<close> it holds (the one of
  \<open>blockUntilReady\<close> also holds \<open>user\<close>), and the one that fulfils the completion handle
  of \<open>sendRequest\<close>.
\<close>

datatype listener = ConnectListener handle NDKUser | SignListener handle | RequestListener handle

fun listener_handle :: "listener \<Rightarrow> handle" where
  "listener_handle (ConnectListener h user) = h"
| "listener_handle (SignListener h) = h"
| "listener_handle (RequestListener h) = h"

text \<open>
  The signer with its RPC object: the filters passed to \<open>rpc.subscribe\<close>, the one-shot
  listeners by event name in the order of registration, the requests that
  \<open>rpc.sendRequest\<close> has published, and the promises created so far, a handle being an
  index.
\<close>

record 'ev NDKNip46Signer =
  ndk_of :: ndk_ref
  remotePubkey :: string
  localSigner :: NDKSigner
  rpc_subscriptions :: "rpc_filter list"
  rpc_listeners :: "(string \<times> listener) list"
  rpc_outbox :: "'ev rpc_request list"
  promises :: "(rvalue, reason) promise list"

text \<open>
  The constructor. \<open>generated\<close> is what \<open>NDKPrivateKeySigner.generate()\<close> returns, which
  is called only when no local signer is given (a signer is an object, hence truthy).
\<close>

definition NDKNip46Signer_new ::
  "ndk_ref \<Rightarrow> string \<Rightarrow> NDKSigner option \<Rightarrow> NDKSigner \<Rightarrow> 'ev NDKNip46Signer"
where
  "NDKNip46Signer_new ndk' remotePubkey' localSigner' generated =
     \<lparr> ndk_of = ndk',
       remotePubkey = remotePubkey',
       localSigner = (if localSigner' = None then generated else the localSigner'),
       rpc_subscriptions = [],
       rpc_listeners = [],
       rpc_outbox = [],
       promises = [] \<rparr>"

definition user :: "'ev NDKNip46Signer \<Rightarrow> NDKUser" where
  "user this = signer_user (localSigner this)"

text \<open>\<open>new Promise\<close>: a fresh pending promise.\<close>

definition new_promise :: "'ev NDKNip46Signer \<Rightarrow> handle \<times> 'ev NDKNip46Signer" where
  "new_promise this = (length (promises this), this\<lparr>promises := promises this @ [Pending]\<rparr>)"

text \<open>The state of a promise; a handle that was never created has no state but pending.\<close>

definition promise_at :: "'ev NDKNip46Signer \<Rightarrow> handle \<Rightarrow> (rvalue, reason) promise" where
  "promise_at this h = (if h < length (promises this) then promises this ! h else Pending)"

definition rpc_subscribe :: "'ev NDKNip46Signer \<Rightarrow> rpc_filter \<Rightarrow> 'ev NDKNip46Signer" where
  "rpc_subscribe this f = this\<lparr>rpc_subscriptions := rpc_subscriptions this @ [f]\<rparr>"

definition rpc_once :: "'ev NDKNip46Signer \<Rightarrow> string \<Rightarrow> listener \<Rightarrow> 'ev NDKNip46Signer" where
  "rpc_once this name l = this\<lparr>rpc_listeners := rpc_listeners this @ [(name, l)]\<rparr>"

text \<open>
  What becomes of the publishing that \<open>sendRequest\<close> does (encrypting, signing and
  publishing the request are outside \<open>src/\<close>): the request is sent, or the attempt fails
  with an error.
\<close>

datatype send_outcome = Sent | SendFailed string

text \<open>
  Modelled from the spec: \<open>NDKNostrRpc.sendRequest\<close> (\<open>rpc.js\<close>) is outside \<open>src/\<close>. It
  builds and publishes a request payload to the target and returns a single-fulfilment
  completion handle, which resolves or rejects exactly once when a response bearing the
  same correlation id is observed. Here the handle is a fresh promise. When the request is
  sent, it is recorded and the handle waits for the response; when sending fails, the
  promise that \<open>sendRequest\<close> returns is rejected with the error, as that of an \<open>async\<close>
  function that throws.
\<close>

definition rpc_sendRequest ::
  "'ev NDKNip46Signer \<Rightarrow> send_outcome \<Rightarrow> string \<Rightarrow> string \<Rightarrow> 'ev rpc_param list \<Rightarrow> string
     \<Rightarrow> handle \<times> 'ev NDKNip46Signer"
where
  "rpc_sendRequest this outcome target name params rid =
     (let (completion, s1) = new_promise this
      in case outcome of
           Sent \<Rightarrow>
             (completion,
              rpc_once
                (s1\<lparr>rpc_outbox := rpc_outbox s1 @
                   [\<lparr> req_target = target, req_method = name, req_params = params, req_id = rid \<rparr>]\<rparr>)
                (''response-'' @ rid) (RequestListener completion))
         | SendFailed msg \<Rightarrow>
             (completion, s1\<lparr>promises := (promises s1)[completion := Rejected (Error msg)]\<rparr>))"

subsection \<open>blockUntilReady, encrypt, decrypt, sign\<close>

text \<open>
  A call of \<open>blockUntilReady\<close> or of \<open>sign\<close> creates its own promise (\<open>promise\<close> in the
  source), awaits the promise that \<open>sendRequest\<close> returns, and then returns its own.
\<close>

record rpc_call =
  own_promise :: handle
  request_promise :: handle

text \<open>
  The promise that the \<open>async\<close> function returns to its caller, its body being
  \<open>await this.rpc.sendRequest(...); return promise\<close>: pending as long as the promise of
  \<open>sendRequest\<close> is pending, rejected with the same reason when that one is rejected, and
  following \<open>promise\<close> once that one is resolved.
\<close>

definition call_promise :: "'ev NDKNip46Signer \<Rightarrow> rpc_call \<Rightarrow> (rvalue, reason) promise" where
  "call_promise this c =
     (case promise_at this (request_promise c) of
        Pending \<Rightarrow> Pending
      | Rejected e \<Rightarrow> Rejected e
      | Resolved v \<Rightarrow> promise_at this (own_promise c))"

text \<open>
  \<open>hexpubkey\<close> is the method of \<open>NDKUser\<close>, outside \<open>src/\<close>, \<open>connectId\<close> the string
  drawn with \<open>Math.random\<close>, and \<open>outcome\<close> what becomes of the sending. The result is the
  call and the signer afterwards.
\<close>

definition blockUntilReady ::
  "(NDKUser \<Rightarrow> string) \<Rightarrow> 'ev NDKNip46Signer \<Rightarrow> string \<Rightarrow> send_outcome
     \<Rightarrow> rpc_call \<times> 'ev NDKNip46Signer"
where
  "blockUntilReady hexpubkey this connectId outcome =
     (let localUser = signer_user (localSigner this);
          user' = getUser (ndk_of this) \<lparr> npub_param = npub localUser \<rparr>;
          s1 = rpc_subscribe this \<lparr> kinds = [24133], p_tags = [hexpubkey localUser] \<rparr>;
          (promise, s2) = new_promise s1;
          s3 = rpc_once s2 (''response-'' @ connectId) (ConnectListener promise user');
          (sent, s4) = rpc_sendRequest s3 outcome (remotePubkey this) ''connect''
                         [Literal (hexpubkey localUser)] connectId
      in (\<lparr> own_promise = promise, request_promise = sent \<rparr>, s4))"

text \<open>An \<open>async\<close> function that throws returns a rejected promise.\<close>

definition encrypt ::
  "'ev NDKNip46Signer \<Rightarrow> NDKUser \<Rightarrow> string \<Rightarrow> (string, reason) promise \<times> 'ev NDKNip46Signer"
where
  "encrypt this recipient v = (Rejected (Error ''not implemented''), this)"

definition decrypt ::
  "'ev NDKNip46Signer \<Rightarrow> NDKUser \<Rightarrow> string \<Rightarrow> (string, reason) promise \<times> 'ev NDKNip46Signer"
where
  "decrypt this sender v = (Rejected (Error ''not implemented''), this)"

definition sign ::
  "'ev NDKNip46Signer \<Rightarrow> string \<Rightarrow> 'ev \<Rightarrow> send_outcome \<Rightarrow> rpc_call \<times> 'ev NDKNip46Signer"
where
  "sign this connectId event outcome =
     (let (promise, s1) = new_promise this;
          s2 = rpc_once s1 (''response-'' @ connectId) (SignListener promise);
          (sent, s3) = rpc_sendRequest s2 outcome (remotePubkey this) ''sign_event''
                         [Stringified event] connectId
      in (\<lparr> own_promise = promise, request_promise = sent \<rparr>, s3))"

subsection \<open>The listeners\<close>

text \<open>
  JavaScript truthiness of \<open>response.error\<close>: \<open>undefined\<close> and the empty string are
  falsy.
\<close>

definition truthy :: "string option \<Rightarrow> bool" where
  "truthy e = (case e of None \<Rightarrow> False | Some s \<Rightarrow> s \<noteq> [])"

text \<open>
  Modelled from the spec: the test by which the completion handle of \<open>sendRequest\<close>
  (\<open>rpc.js\<close>, outside \<open>src/\<close>) tells a response carrying an error field from a success
  response. A response without the field carries none, one with a non-empty error does. The
  spec does not say which of the two an error field holding the empty string is, so that
  is a parameter: \<open>empty_counts\<close> says that it counts as an error.
\<close>

definition carries_error :: "bool \<Rightarrow> string option \<Rightarrow> bool" where
  "carries_error empty_counts e = (case e of None \<Rightarrow> False | Some s \<Rightarrow> s \<noteq> [] \<or> empty_counts)"

text \<open>
  What a listener does with a response: it resolves, it rejects, or it throws before doing
  either. The listeners of the signer are \<open>async\<close> functions, so what they throw rejects the
  promise they return, which nobody holds; the promise of the call is left as it is.

  Modelled from the spec, for the completion handle of \<open>sendRequest\<close>: success responses
  carry a result payload (resolve); responses carrying an error field reject with that
  error's payload verbatim.
\<close>

datatype settle = DoResolve rvalue | DoReject reason | Thrown

fun run_listener :: "bool \<Rightarrow> listener \<Rightarrow> NDKRpcResponse \<Rightarrow> settle" where
  "run_listener empty_counts (ConnectListener h user') response =
     (if result response = ''ack'' then DoResolve (UserValue user')
      else DoReject (Payload (error response)))"
| "run_listener empty_counts (SignListener h) response =
     (if \<not> truthy (error response) then
        (case JSON_parse (result response) of
           None \<Rightarrow> Thrown
         | Some json \<Rightarrow>
             (case get_sig json of
                None \<Rightarrow> Thrown
              | Some sig \<Rightarrow> DoResolve (SigValue sig)))
      else DoReject (Payload (error response)))"
| "run_listener empty_counts (RequestListener h) response =
     (if carries_error empty_counts (error response) then DoReject (Payload (error response))
      else DoResolve (ResultValue (result response)))"

fun apply_settle :: "(rvalue, reason) promise \<Rightarrow> settle \<Rightarrow> (rvalue, reason) promise" where
  "apply_settle p (DoResolve v) = resolve p v"
| "apply_settle p (DoReject r) = reject p r"
| "apply_settle p Thrown = p"

definition fire ::
  "bool \<Rightarrow> NDKRpcResponse \<Rightarrow> (rvalue, reason) promise list \<Rightarrow> listener
     \<Rightarrow> (rvalue, reason) promise list"
where
  "fire empty_counts response ps l =
     (let h = listener_handle l
      in if h < length ps
         then ps[h := apply_settle (ps ! h) (run_listener empty_counts l response)]
         else ps)"

text \<open>
  \<open>emit\<close> of the event emitter, for listeners registered with \<open>once\<close>: the listeners of
  that name are removed and called, in the order of registration.
\<close>

definition emit ::
  "bool \<Rightarrow> 'ev NDKNip46Signer \<Rightarrow> string \<Rightarrow> NDKRpcResponse \<Rightarrow> 'ev NDKNip46Signer"
where
  "emit empty_counts this name response =
     this\<lparr> rpc_listeners := filter (\<lambda>x. fst x \<noteq> name) (rpc_listeners this),
           promises := foldl (fire empty_counts response) (promises this)
                         (map snd (filter (\<lambda>x. fst x = name) (rpc_listeners this))) \<rparr>"

text \<open>
  Modelled from the spec: the routing of \<open>NDKNostrRpc\<close> (\<open>rpc.js\<close>) is outside \<open>src/\<close>.
  Every inbound event is classified as a request or a response; a response is handed to the
  listeners waiting for its correlation id, which \<open>src/\<close> registers under the name
  \<open>response-<id>\<close>. The signer registers no listener for requests.
\<close>

datatype inbound = InRequest string string | InResponse NDKRpcResponse

fun rpc_receive :: "bool \<Rightarrow> 'ev NDKNip46Signer \<Rightarrow> inbound \<Rightarrow> 'ev NDKNip46Signer" where
  "rpc_receive empty_counts this (InResponse response) =
     emit empty_counts this (''response-'' @ resp_id response) response"
| "rpc_receive empty_counts this (InRequest rid name) = this"

text \<open>
  What happens to a signer after a call: inbound events arrive, and further calls of
  \<open>sign\<close> and \<open>blockUntilReady\<close> are made, with any correlation id and any outcome of the
  sending.
\<close>

datatype 'ev activity =
    Inbound inbound
  | SignCall string 'ev send_outcome
  | ConnectCall string send_outcome

fun step ::
  "bool \<Rightarrow> (NDKUser \<Rightarrow> string) \<Rightarrow> 'ev NDKNip46Signer \<Rightarrow> 'ev activity \<Rightarrow> 'ev NDKNip46Signer"
where
  "step empty_counts hexpubkey this (Inbound m) = rpc_receive empty_counts this m"
| "step empty_counts hexpubkey this (SignCall connectId event outcome) =
     snd (sign this connectId event outcome)"
| "step empty_counts hexpubkey this (ConnectCall connectId outcome) =
     snd (blockUntilReady hexpubkey this connectId outcome)"

definition rpc_run ::
  "bool \<Rightarrow> (NDKUser \<Rightarrow> string) \<Rightarrow> 'ev NDKNip46Signer \<Rightarrow> 'ev activity list \<Rightarrow> 'ev NDKNip46Signer"
where
  "rpc_run empty_counts hexpubkey this acts = foldl (step empty_counts hexpubkey) this acts"

subsection \<open>Notions for the statements\<close>

text \<open>An activity is the arrival of a response bearing the correlation id.\<close>

fun matches :: "string \<Rightarrow> 'ev activity \<Rightarrow> bool" where
  "matches cid (Inbound (InResponse response)) = (resp_id response = cid)"
| "matches cid (Inbound (InRequest rid name)) = False"
| "matches cid (SignCall connectId event outcome) = False"
| "matches cid (ConnectCall connectId outcome) = False"

text \<open>The listeners registered for a promise.\<close>

definition listeners_of :: "'ev NDKNip46Signer \<Rightarrow> handle \<Rightarrow> (string \<times> listener) list" where
  "listeners_of this h = filter (\<lambda>x. listener_handle (snd x) = h) (rpc_listeners this)"

text \<open>Every registered listener holds a promise that exists.\<close>

definition handles_allocated :: "'ev NDKNip46Signer \<Rightarrow> bool" where
  "handles_allocated this = list_all (\<lambda>x. listener_handle (snd x) < length (promises this)) (rpc_listeners this)"

text \<open>
  A promise is waiting: it is pending, and the one listener registered for it waits for
  the response with the correlation id.
\<close>

definition awaiting :: "'ev NDKNip46Signer \<Rightarrow> handle \<Rightarrow> string \<Rightarrow> listener \<Rightarrow> bool" where
  "awaiting this h cid l \<longleftrightarrow>
     h < length (promises this) \<and> promises this ! h = Pending
     \<and> listener_handle l = h
     \<and> listeners_of this h = [(''response-'' @ cid, l)]"

text \<open>A promise is settled.\<close>

fun settled :: "('a, 'r) promise \<Rightarrow> bool" where
  "settled Pending = False"
| "settled (Resolved v) = True"
| "settled (Rejected r) = True"

text \<open>A string between double quotes, for writing JSON texts down.\<close>

definition quoted :: "string \<Rightarrow> string" where
  "quoted s = CHR 0x22 # s @ [CHR 0x22]"

section \<open>Properties of the client\<close>

lemma resolve_not_Pending: "p \<noteq> Pending \<Longrightarrow> resolve p v = p"
  by (cases p) simp_all

subsection \<open>assertSigner\<close>

text \<open>
  Claim C5. With no Signer configured, \<open>assertSigner\<close> emits \<open>signerRequired\<close> and then
  throws: the emission comes strictly before the failure. With a Signer configured it
  neither emits \<open>signerRequired\<close> nor fails.
\<close>

theorem assertSigner_ok:
  "(signer this = None \<longrightarrow>
      assertSigner this = [Emit ''signerRequired'', Throw ''Signer required'']
      \<and> strictly_before (Emit ''signerRequired'') (Throw ''Signer required'') (assertSigner this)
      \<and> fails (assertSigner this))
   \<and> (signer this \<noteq> None \<longrightarrow>
      Emit ''signerRequired'' \<notin> set (assertSigner this) \<and> \<not> fails (assertSigner this))"
  by (simp add: assertSigner_def strictly_before_def fails_def)

theorem assertSigner_ok_witness:
  "signer \<lparr> pool = [], signer = None, devWriteRelaySet = (None :: string list option) \<rparr> = None
   \<and> assertSigner \<lparr> pool = [], signer = None, devWriteRelaySet = (None :: string list option) \<rparr>
       = [Emit ''signerRequired'', Throw ''Signer required'']
   \<and> signer \<lparr> pool = [], signer = Some \<lparr> signer_user = \<lparr> npub = ''npub1'', user_ndk = None \<rparr> \<rparr>,
              devWriteRelaySet = (None :: string list option) \<rparr> \<noteq> None
   \<and> \<not> fails (assertSigner \<lparr> pool = [], signer = Some \<lparr> signer_user = \<lparr> npub = ''npub1'', user_ndk = None \<rparr> \<rparr>,
              devWriteRelaySet = (None :: string list option) \<rparr>)"
  using assertSigner_ok [of "\<lparr> pool = [], signer = None, devWriteRelaySet = (None :: string list option) \<rparr>"]
        assertSigner_ok [of "\<lparr> pool = [], signer = Some \<lparr> signer_user = \<lparr> npub = ''npub1'', user_ndk = None \<rparr> \<rparr>,
              devWriteRelaySet = (None :: string list option) \<rparr>"]
  by simp

subsection \<open>publish\<close>

text \<open>
  Claim C2. \<open>publish\<close> hands the event to the explicit \<open>relaySet\<close> argument when there
  is one; otherwise to the configured \<open>devWriteRelaySet\<close> when there is one; otherwise to
  the set computed from the event. The last conjunct says the same from the constructor's
  parameters.
\<close>

theorem publish_priority:
  "publish calc this event (Some rs) = RelaySet_publish rs event
   \<and> (devWriteRelaySet this = Some dev \<longrightarrow> publish calc this event None = RelaySet_publish dev event)
   \<and> (devWriteRelaySet this = None \<longrightarrow>
        publish calc this event None = RelaySet_publish (calc this event) event)
   \<and> publish calc (NDK_new fromRelayUrls cfg) event None =
       (case devWriteRelayUrls cfg of
          Some urls \<Rightarrow> RelaySet_publish (fromRelayUrls urls) event
        | None \<Rightarrow> RelaySet_publish (calc (NDK_new fromRelayUrls cfg) event) event)"
  by (simp add: publish_def NDK_new_def split: option.splits)

theorem publish_priority_witness:
  "devWriteRelaySet \<lparr> pool = [], signer = None, devWriteRelaySet = Some [''wss://dev''] \<rparr> = Some [''wss://dev'']
   \<and> publish (\<lambda>this ev. [''wss://calc'']) \<lparr> pool = [], signer = None, devWriteRelaySet = Some [''wss://dev''] \<rparr>
        \<lparr> tagId = ''a'', created_at = 1, content = ''x'', ndk = None \<rparr> None
      = RelaySet_publish [''wss://dev''] \<lparr> tagId = ''a'', created_at = 1, content = ''x'', ndk = None \<rparr>
   \<and> devWriteRelaySet \<lparr> pool = [], signer = None, devWriteRelaySet = (None :: string list option) \<rparr> = None
   \<and> publish (\<lambda>this ev. [''wss://calc'']) \<lparr> pool = [], signer = None, devWriteRelaySet = None \<rparr>
        \<lparr> tagId = ''a'', created_at = 1, content = ''x'', ndk = None \<rparr> None
      = RelaySet_publish [''wss://calc''] \<lparr> tagId = ''a'', created_at = 1, content = ''x'', ndk = None \<rparr>
   \<and> publish (\<lambda>this ev. [''wss://calc'']) \<lparr> pool = [], signer = None, devWriteRelaySet = Some [''wss://dev''] \<rparr>
        \<lparr> tagId = ''a'', created_at = 1, content = ''x'', ndk = None \<rparr> (Some [''wss://explicit''])
      = RelaySet_publish [''wss://explicit''] \<lparr> tagId = ''a'', created_at = 1, content = ''x'', ndk = None \<rparr>"
  using publish_priority [of "\<lambda>this ev. [''wss://calc'']"
          "\<lparr> pool = [], signer = None, devWriteRelaySet = Some [''wss://dev''] \<rparr>"
          "\<lparr> tagId = ''a'', created_at = 1, content = ''x'', ndk = None \<rparr>" "[''wss://explicit'']" "[''wss://dev'']"]
        publish_priority [of "\<lambda>this ev. [''wss://calc'']"
          "\<lparr> pool = [], signer = None, devWriteRelaySet = None \<rparr>"
          "\<lparr> tagId = ''a'', created_at = 1, content = ''x'', ndk = None \<rparr>"]
  by simp

subsection \<open>fetchEvent\<close>

lemma fetchEvent_fold_settled:
  "p \<noteq> Pending \<Longrightarrow> foldl (fetchEvent_listener this) p ns = p"
proof (induction ns arbitrary: p)
  case Nil then show ?case by simp
next
  case (Cons n ns)
  then show ?case by (cases n) (simp_all add: resolve_not_Pending)
qed

lemma fetchEvent_fold:
  "foldl (fetchEvent_listener this) Pending ns =
     (case events_of ns of [] \<Rightarrow> Pending | e # es \<Rightarrow> Resolved (e\<lparr>ndk := Some this\<rparr>))"
proof (induction ns)
  case Nil then show ?case by simp
next
  case (Cons n ns)
  then show ?case by (cases n) (simp_all add: fetchEvent_fold_settled)
qed

text \<open>
  Claim C6. \<open>fetchEvent\<close> starts a Subscription with \<open>closeOnEose: true\<close>, and its
  promise resolves with the first event the Subscription delivers (with the
  back-reference set); whatever is delivered later leaves the result as it is.
\<close>

theorem fetchEvent_first_arrival:
  "sub_opts (fst (fetchEvent this f opts ns :: ('f, 'o, 'rs) NDKSubscription \<times> (NDKEvent, 'r) promise))
     = Some \<lparr> filterOptions = opts, closeOnEose = True \<rparr>
   \<and> started (fst (fetchEvent this f opts ns :: ('f, 'o, 'rs) NDKSubscription \<times> (NDKEvent, 'r) promise))
   \<and> snd (fetchEvent this f opts ns :: ('f, 'o, 'rs) NDKSubscription \<times> (NDKEvent, 'r) promise) =
       (case events_of ns of [] \<Rightarrow> Pending | e # es \<Rightarrow> Resolved (e\<lparr>ndk := Some this\<rparr>))"
  by (simp add: fetchEvent_def Let_def subscribe_def start_def fetchEvent_fold)

theorem fetchEvent_first_arrival_witness:
  "snd (fetchEvent 7 ''filter'' ''opts''
         [Event \<lparr> tagId = ''a'', created_at = 1, content = ''from A'', ndk = None \<rparr>,
          Event \<lparr> tagId = ''a'', created_at = 2, content = ''from B'', ndk = None \<rparr>, Eose]
        :: (string, string, string list) NDKSubscription \<times> (NDKEvent, string) promise)
   = Resolved \<lparr> tagId = ''a'', created_at = 1, content = ''from A'', ndk = Some 7 \<rparr>"
  using fetchEvent_first_arrival [where ?'rs = "string list" and ?'r = string, of 7 "''filter''" "''opts''"
         "[Event \<lparr> tagId = ''a'', created_at = 1, content = ''from A'', ndk = None \<rparr>,
          Event \<lparr> tagId = ''a'', created_at = 2, content = ''from B'', ndk = None \<rparr>, Eose]"]
  by simp

text \<open>
  Claim C9. As long as the Subscription delivers no event, however many stream-ends it
  signals, the promise of \<open>fetchEvent\<close> stays pending; and it is never rejected,
  whatever is delivered.
\<close>

theorem fetchEvent_pending:
  "(events_of ns = [] \<longrightarrow>
      snd (fetchEvent this f opts ns :: ('f, 'o, 'rs) NDKSubscription \<times> (NDKEvent, 'r) promise) = Pending)
   \<and> snd (fetchEvent this f opts ns :: ('f, 'o, 'rs) NDKSubscription \<times> (NDKEvent, 'r) promise) \<noteq> Rejected r"
  by (simp add: fetchEvent_def Let_def fetchEvent_fold split: list.splits)

theorem fetchEvent_pending_witness:
  "events_of [Eose, Eose] = []
   \<and> snd (fetchEvent 7 ''filter'' ''opts'' [Eose, Eose]
        :: (string, string, string list) NDKSubscription \<times> (NDKEvent, string) promise) = Pending"
  using fetchEvent_pending [where ?'rs = "string list" and ?'r = string, of "[Eose, Eose]" 7 "''filter''" "''opts''"]
  by simp

subsection \<open>fetchEvents\<close>

lemma dedupEvent_cases:
  "dedupEvent tie a b = a \<or> dedupEvent tie a b = b"
  by (simp add: dedupEvent_def)

lemma dedupEvent_latest:
  "created_at a \<le> created_at (dedupEvent tie a b) \<and> created_at b \<le> created_at (dedupEvent tie a b)"
  by (simp add: dedupEvent_def)

lemma set_update_distinct:
  "distinct (map fst al) \<Longrightarrow>
   set (AList.update k v al) = insert (k, v) {x \<in> set al. fst x \<noteq> k}"
  by (induction al) (auto simp: image_iff)

lemma entry_ok_other:
  assumes "entry_ok this S k e" and "tagId ev \<noteq> k"
  shows "entry_ok this (insert ev S) k e"
  using assms unfolding entry_ok_def by blast

lemma entry_ok_new:
  assumes "\<forall>e' \<in> S. tagId e' \<noteq> tagId ev"
  shows "entry_ok this (insert ev S) (tagId ev) (ev\<lparr>ndk := Some this\<rparr>)"
  using assms unfolding entry_ok_def by auto

lemma entry_ok_dedup:
  assumes ex: "entry_ok this S (tagId ev) ex"
  shows "entry_ok this (insert ev S) (tagId ev) ((dedupEvent tie ex ev)\<lparr>ndk := Some this\<rparr>)"
proof -
  from ex obtain e0 where tag: "tagId ex = tagId ev" and e0: "e0 \<in> S" "ex = e0\<lparr>ndk := Some this\<rparr>"
    and mx: "\<forall>e' \<in> S. tagId e' = tagId ev \<longrightarrow> created_at e' \<le> created_at ex"
    unfolding entry_ok_def by blast
  have exs: "ex\<lparr>ndk := Some this\<rparr> = e0\<lparr>ndk := Some this\<rparr>" using e0(2) by simp
  consider "dedupEvent tie ex ev = ex" | "dedupEvent tie ex ev = ev"
    using dedupEvent_cases by blast
  then show ?thesis
  proof cases
    case 1
    have le: "created_at ev \<le> created_at ex" using dedupEvent_latest [of ex tie ev] 1 by simp
    show ?thesis unfolding 1 entry_ok_def
    proof (intro conjI)
      show "tagId (ex\<lparr>ndk := Some this\<rparr>) = tagId ev" using tag by simp
      show "\<exists>e1 \<in> insert ev S. ex\<lparr>ndk := Some this\<rparr> = e1\<lparr>ndk := Some this\<rparr>"
        using e0(1) exs by blast
      show "\<forall>e' \<in> insert ev S. tagId e' = tagId ev \<longrightarrow> created_at e' \<le> created_at (ex\<lparr>ndk := Some this\<rparr>)"
        using mx le by simp
    qed
  next
    case 2
    have le: "created_at ex \<le> created_at ev" using dedupEvent_latest [of ex tie ev] 2 by simp
    show ?thesis unfolding 2 entry_ok_def
    proof (intro conjI)
      show "tagId (ev\<lparr>ndk := Some this\<rparr>) = tagId ev" by simp
      show "\<exists>e1 \<in> insert ev S. ev\<lparr>ndk := Some this\<rparr> = e1\<lparr>ndk := Some this\<rparr>" by blast
      show "\<forall>e' \<in> insert ev S. tagId e' = tagId ev \<longrightarrow> created_at e' \<le> created_at (ev\<lparr>ndk := Some this\<rparr>)"
        using mx le by (auto intro: order_trans)
    qed
  qed
qed

lemma merged_update:
  assumes m: "merged this al S"
    and new: "entry_ok this (insert ev S) (tagId ev) v"
  shows "merged this (AList.update (tagId ev) v al) (insert ev S)"
proof -
  from m have d: "distinct (map fst al)" and keys: "fst ` set al = tagId ` S"
    and ent: "\<And>x. x \<in> set al \<Longrightarrow> entry_ok this S (fst x) (snd x)"
    unfolding merged_def by blast+
  show ?thesis unfolding merged_def
  proof (intro conjI ballI)
    show "distinct (map fst (AList.update (tagId ev) v al))"
      using d by (simp add: distinct_update)
    show "fst ` set (AList.update (tagId ev) v al) = tagId ` insert ev S"
      using keys by (simp add: dom_update)
    fix x assume "x \<in> set (AList.update (tagId ev) v al)"
    then consider "x = (tagId ev, v)" | "x \<in> set al" "fst x \<noteq> tagId ev"
      unfolding set_update_distinct [OF d] by blast
    then show "entry_ok this (insert ev S) (fst x) (snd x)"
    proof cases
      case 1 then show ?thesis using new by simp
    next
      case 2 then show ?thesis using entry_ok_other [OF ent [OF 2(1)], of ev] by (simp add: eq_commute)
    qed
  qed
qed

lemma entry_ok_tagId: "entry_ok this S k e \<Longrightarrow> tagId e = k"
  by (simp add: entry_ok_def)

lemma merged_step:
  assumes m: "merged this al S"
  shows "merged this (fst (fetchEvents_listener tie this (al, p) (Event ev))) (insert ev S)"
proof (cases "map_of al (tagId ev)")
  case None
  then have "tagId ev \<notin> fst ` set al" by (simp add: map_of_eq_None_iff)
  moreover from m have "fst ` set al = tagId ` S" unfolding merged_def by blast
  ultimately have "\<forall>e' \<in> S. tagId e' \<noteq> tagId ev" by (metis imageI)
  then have new: "entry_ok this (insert ev S) (tagId ev) (ev\<lparr>ndk := Some this\<rparr>)"
    by (rule entry_ok_new)
  have "fst (fetchEvents_listener tie this (al, p) (Event ev))
          = AList.update (tagId ev) (ev\<lparr>ndk := Some this\<rparr>) al"
    using None by simp
  then show ?thesis using merged_update [OF m new] by simp
next
  case (Some ex)
  then have "(tagId ev, ex) \<in> set al" by (rule map_of_SomeD)
  moreover from m have "\<And>x. x \<in> set al \<Longrightarrow> entry_ok this S (fst x) (snd x)"
    unfolding merged_def by blast
  ultimately have "entry_ok this S (fst (tagId ev, ex)) (snd (tagId ev, ex))" by blast
  then have ex: "entry_ok this S (tagId ev) ex" by simp
  have new: "entry_ok this (insert ev S) (tagId ev) ((dedupEvent tie ex ev)\<lparr>ndk := Some this\<rparr>)"
    using ex by (rule entry_ok_dedup)
  have "tagId ((dedupEvent tie ex ev)\<lparr>ndk := Some this\<rparr>) = tagId ev"
    using new by (rule entry_ok_tagId)
  then have "fst (fetchEvents_listener tie this (al, p) (Event ev))
          = AList.update (tagId ev) ((dedupEvent tie ex ev)\<lparr>ndk := Some this\<rparr>) al"
    using Some by (simp add: Let_def)
  then show ?thesis using merged_update [OF m new] by simp
qed

lemma fetchEvents_events_promise:
  "snd (foldl (fetchEvents_listener tie this) (al, p) (map Event evs)) = p"
  by (induction evs arbitrary: al) (simp_all add: Let_def)

lemma fetchEvents_events_merged:
  "merged this al S \<Longrightarrow>
   merged this (fst (foldl (fetchEvents_listener tie this) (al, p) (map Event evs))) (S \<union> set evs)"
proof (induction evs arbitrary: al S)
  case Nil then show ?case by simp
next
  case (Cons ev evs)
  let ?st = "fetchEvents_listener tie this (al, p) (Event ev)"
  have sp: "snd ?st = p" by (simp add: Let_def)
  have "merged this (fst ?st) (insert ev S)" using Cons.prems by (rule merged_step)
  from Cons.IH [OF this, of ] have
    "merged this (fst (foldl (fetchEvents_listener tie this) (fst ?st, p) (map Event evs))) (insert ev S \<union> set evs)" .
  moreover have "?st = (fst ?st, p)" using sp by (metis prod.collapse)
  ultimately show ?case by simp
qed

lemma fetchEvents_settled:
  "p \<noteq> Pending \<Longrightarrow> snd (foldl (fetchEvents_listener tie this) (al, p) ns) = p"
proof (induction ns arbitrary: al)
  case Nil then show ?case by simp
next
  case (Cons n ns)
  then show ?case by (cases n) (simp_all add: Let_def resolve_not_Pending)
qed

lemma fetchEvents_no_eose:
  "Eose \<notin> set ns \<Longrightarrow> snd (foldl (fetchEvents_listener tie this) (al, p) ns) = p"
proof (induction ns arbitrary: al)
  case Nil then show ?case by simp
next
  case (Cons n ns)
  then show ?case by (cases n) (simp_all add: Let_def)
qed

lemma fetchEvents_at_eose:
  fixes p0 :: "(NDKEvent list, 'r) promise"
  assumes "p0 = Pending"
  shows "snd (foldl (fetchEvents_listener tie this) ([], p0) (map Event evs @ Eose # rest))
     = Resolved (map snd (fst (foldl (fetchEvents_listener tie this) ([], p0) (map Event evs))))"
proof -
  obtain al p where st: "foldl (fetchEvents_listener tie this) ([], p0) (map Event evs) = (al, p)"
    by (cases "foldl (fetchEvents_listener tie this) ([], p0) (map Event evs)")
  have "p = Pending" using fetchEvents_events_promise [of tie this "[]" p0 evs] st assms by simp
  then show ?thesis using st by (simp add: fetchEvents_settled)
qed

lemma merged_values:
  assumes "merged this al S"
  shows "distinct (map tagId (map snd al))" and "tagId ` set (map snd al) = tagId ` S"
    and "\<forall>r \<in> set (map snd al). entry_ok this S (tagId r) r"
proof -
  from assms have d: "distinct (map fst al)" and keys: "fst ` set al = tagId ` S"
    and ent: "\<And>x. x \<in> set al \<Longrightarrow> entry_ok this S (fst x) (snd x)"
    unfolding merged_def by blast+
  have eq: "map tagId (map snd al) = map fst al"
    using entry_ok_tagId [OF ent] by simp
  show "distinct (map tagId (map snd al))" unfolding eq by (rule d)
  have "tagId ` set (map snd al) = set (map tagId (map snd al))" by (simp only: set_map)
  also have "\<dots> = fst ` set al" unfolding eq by (simp only: set_map)
  finally show "tagId ` set (map snd al) = tagId ` S" using keys by (simp only:)
  show "\<forall>r \<in> set (map snd al). entry_ok this S (tagId r) r"
  proof
    fix r assume "r \<in> set (map snd al)"
    then obtain x where x: "x \<in> set al" "r = snd x" by auto
    from ent [OF x(1)] have "entry_ok this S (fst x) (snd x)" .
    moreover from this have "tagId (snd x) = fst x" by (rule entry_ok_tagId)
    ultimately show "entry_ok this S (tagId r) r" using x(2) by simp
  qed
qed

text \<open>
  Claim C1. \<open>fetchEvents\<close> starts a Subscription with \<open>closeOnEose: true\<close>. Its promise
  stays pending as long as no stream-end is delivered. At the first stream-end it resolves
  with the values of the map: exactly one entry per identity seen before the stream-end,
  and each entry is one of the copies seen with that identity (with the back-reference
  set) that no other copy seen with that identity is later than. This holds for every
  deterministic rule on ties.
\<close>

theorem fetchEvents_merges:
  "sub_opts (fst (fetchEvents tie this f opts ns :: ('f, 'o, 'rs) NDKSubscription \<times> (NDKEvent list, 'r) promise))
     = Some \<lparr> filterOptions = opts, closeOnEose = True \<rparr>
   \<and> started (fst (fetchEvents tie this f opts ns :: ('f, 'o, 'rs) NDKSubscription \<times> (NDKEvent list, 'r) promise))
   \<and> (Eose \<notin> set ns \<longrightarrow>
        snd (fetchEvents tie this f opts ns :: ('f, 'o, 'rs) NDKSubscription \<times> (NDKEvent list, 'r) promise)
          = Pending)
   \<and> (\<exists>res.
        snd (fetchEvents tie this f opts (map Event evs @ Eose # rest)
              :: ('f, 'o, 'rs) NDKSubscription \<times> (NDKEvent list, 'r) promise) = Resolved res
        \<and> distinct (map tagId res)
        \<and> tagId ` set res = tagId ` set evs
        \<and> (\<forall>r \<in> set res.
              (\<exists>e \<in> set evs. r = e\<lparr>ndk := Some this\<rparr>)
              \<and> (\<forall>e' \<in> set evs. tagId e' = tagId r \<longrightarrow> created_at e' \<le> created_at r)))"
proof (intro conjI impI)
  show "sub_opts (fst (fetchEvents tie this f opts ns :: ('f, 'o, 'rs) NDKSubscription \<times> (NDKEvent list, 'r) promise))
     = Some \<lparr> filterOptions = opts, closeOnEose = True \<rparr>"
    by (simp add: fetchEvents_def Let_def subscribe_def start_def)
  show "started (fst (fetchEvents tie this f opts ns :: ('f, 'o, 'rs) NDKSubscription \<times> (NDKEvent list, 'r) promise))"
    by (simp add: fetchEvents_def Let_def subscribe_def start_def)
  show "snd (fetchEvents tie this f opts ns :: ('f, 'o, 'rs) NDKSubscription \<times> (NDKEvent list, 'r) promise)
          = Pending" if "Eose \<notin> set ns"
    using that by (simp add: fetchEvents_def Let_def fetchEvents_no_eose)
  let ?p0 = "Pending :: (NDKEvent list, 'r) promise"
  let ?al = "fst (foldl (fetchEvents_listener tie this) ([], ?p0) (map Event evs))"
  have "merged this [] {}" by (simp add: merged_def)
  then have "merged this ?al ({} \<union> set evs)" by (rule fetchEvents_events_merged)
  then have m: "merged this ?al (set evs)" by simp
  have res: "snd (fetchEvents tie this f opts (map Event evs @ Eose # rest)
              :: ('f, 'o, 'rs) NDKSubscription \<times> (NDKEvent list, 'r) promise) = Resolved (map snd ?al)"
    unfolding fetchEvents_def Let_def snd_conv by (rule fetchEvents_at_eose) (rule refl)
  have ok: "\<forall>r \<in> set (map snd ?al).
              (\<exists>e \<in> set evs. r = e\<lparr>ndk := Some this\<rparr>)
              \<and> (\<forall>e' \<in> set evs. tagId e' = tagId r \<longrightarrow> created_at e' \<le> created_at r)"
    using merged_values(3) [OF m] unfolding entry_ok_def by blast
  show "\<exists>res.
        snd (fetchEvents tie this f opts (map Event evs @ Eose # rest)
              :: ('f, 'o, 'rs) NDKSubscription \<times> (NDKEvent list, 'r) promise) = Resolved res
        \<and> distinct (map tagId res)
        \<and> tagId ` set res = tagId ` set evs
        \<and> (\<forall>r \<in> set res.
              (\<exists>e \<in> set evs. r = e\<lparr>ndk := Some this\<rparr>)
              \<and> (\<forall>e' \<in> set evs. tagId e' = tagId r \<longrightarrow> created_at e' \<le> created_at r))"
    using res merged_values(1) [OF m] merged_values(2) [OF m] ok by blast
qed

theorem fetchEvents_merges_witness:
  "Eose \<notin> set [Event \<lparr> tagId = ''30023:alice:post'', created_at = 100, content = ''relay A'', ndk = None \<rparr>,
                 Event \<lparr> tagId = ''30023:alice:post'', created_at = 200, content = ''relay B'', ndk = None \<rparr>]
   \<and> snd (fetchEvents (\<lambda>a b. True) 7 ''filter'' ''opts''
           [Event \<lparr> tagId = ''30023:alice:post'', created_at = 100, content = ''relay A'', ndk = None \<rparr>,
            Event \<lparr> tagId = ''30023:alice:post'', created_at = 200, content = ''relay B'', ndk = None \<rparr>]
          :: (string, string, string list) NDKSubscription \<times> (NDKEvent list, string) promise) = Pending
   \<and> snd (fetchEvents (\<lambda>a b. True) 7 ''filter'' ''opts''
           (map Event [\<lparr> tagId = ''30023:alice:post'', created_at = 100, content = ''relay A'', ndk = None \<rparr>,
                       \<lparr> tagId = ''30023:alice:post'', created_at = 200, content = ''relay B'', ndk = None \<rparr>]
             @ Eose # [])
          :: (string, string, string list) NDKSubscription \<times> (NDKEvent list, string) promise)
       = Resolved [\<lparr> tagId = ''30023:alice:post'', created_at = 200, content = ''relay B'', ndk = Some 7 \<rparr>]"
  using fetchEvents_merges [where ?'rs = "string list" and ?'r = string and ?'f = string and ?'o = string,
          of "\<lambda>a b. True" 7 "''filter''" "''opts''"
          "[Event \<lparr> tagId = ''30023:alice:post'', created_at = 100, content = ''relay A'', ndk = None \<rparr>,
            Event \<lparr> tagId = ''30023:alice:post'', created_at = 200, content = ''relay B'', ndk = None \<rparr>]"
          "[\<lparr> tagId = ''30023:alice:post'', created_at = 100, content = ''relay A'', ndk = None \<rparr>,
            \<lparr> tagId = ''30023:alice:post'', created_at = 200, content = ''relay B'', ndk = None \<rparr>]" "[]"]
  by (simp add: fetchEvents_def dedupEvent_def Let_def)

section \<open>Properties of the model of JSON.parse\<close>

text \<open>
  Every parser consumes at least one character, so the bound on nested calls that
  \<open>JSON_parse\<close> passes is never reached: above it, the result does not depend on the bound.
\<close>

lemma skip_ws_length: "length (skip_ws s) \<le> length s"
  by (simp add: skip_ws_def length_dropWhile_le)

lemma prepend_SomeD: "prepend pre r = Some (x, rest) \<Longrightarrow> \<exists>y. r = Some (y, rest)"
  by (auto simp: prepend_def split: option.splits)

lemma parse_string_body_shorter:
  "parse_string_body s = Some (x, r) \<Longrightarrow> length r < length s"
proof (induction s arbitrary: x r rule: parse_string_body.induct)
  case 1
  then show ?case by simp
next
  case (2 c cs)
  show ?case
  proof (cases "c = CHR 0x22")
    case True
    with "2.prems" show ?thesis by simp
  next
    case nq: False
    show ?thesis
    proof (cases "c = CHR 0x5C")
      case False
      with nq "2.prems" obtain y where "parse_string_body cs = Some (y, r)"
        by (auto split: if_splits dest: prepend_SomeD)
      with "2.IH"(3) [OF nq False] nq False "2.prems" show ?thesis
        by (auto split: if_splits)
    next
      case bs: True
      show ?thesis
      proof (cases cs)
        case Nil
        with nq bs "2.prems" show ?thesis by simp
      next
        case (Cons e cs')
        show ?thesis
        proof (cases "e = CHR ''u''")
          case False
          with nq bs Cons "2.prems" obtain ch y where
            "simple_escape e = Some ch" "parse_string_body cs' = Some (y, r)"
            by (auto split: option.splits dest: prepend_SomeD)
          with "2.IH"(2) [OF nq bs Cons False] show ?thesis using Cons by fastforce
        next
          case u: True
          with nq bs Cons "2.prems" obtain h1 h2 h3 h4 cs'' n y where
            cs': "cs' = h1 # h2 # h3 # h4 # cs''" and "hex4 h1 h2 h3 h4 = Some n"
            "parse_string_body cs'' = Some (y, r)"
            by (auto split: option.splits list.splits dest: prepend_SomeD)
          with "2.IH"(1) [OF nq bs Cons u cs'] show ?thesis using Cons cs' by fastforce
        qed
      qed
    qed
  qed
qed

lemma parse_digits_shorter: "parse_digits s = Some (d, r) \<Longrightarrow> length r < length s"
proof -
  assume a: "parse_digits s = Some (d, r)"
  then have ne: "takeWhile is_digit s \<noteq> []" and r: "r = dropWhile is_digit s"
    by (auto simp: parse_digits_def split: if_splits)
  have "length (takeWhile is_digit s) + length (dropWhile is_digit s) = length s"
    by (metis length_append takeWhile_dropWhile_id)
  with ne r show ?thesis by (cases "takeWhile is_digit s") auto
qed

lemma parse_int_part_shorter: "parse_int_part s = Some (d, r) \<Longrightarrow> length r < length s"
  by (auto simp: parse_int_part_def split: list.splits if_splits dest: parse_digits_shorter)

lemma parse_frac_le: "parse_frac s = Some (d, r) \<Longrightarrow> length r \<le> length s"
  by (auto simp: parse_frac_def split: list.splits if_splits dest!: prepend_SomeD parse_digits_shorter)

lemma parse_exp_le: "parse_exp s = Some (d, r) \<Longrightarrow> length r \<le> length s"
  by (auto simp: parse_exp_def split: list.splits if_splits dest!: prepend_SomeD parse_digits_shorter)

lemma parse_number_shorter: "parse_number s = Some (d, r) \<Longrightarrow> length r < length s"
proof -
  assume a: "parse_number s = Some (d, r)"
  obtain sg s1 where sg: "(case s of [] \<Rightarrow> ([], s) | c # r \<Rightarrow> if c = CHR ''-'' then ([c], r) else ([], s)) = (sg, s1)"
    by (cases "(case s of [] \<Rightarrow> ([], s) | c # r \<Rightarrow> if c = CHR ''-'' then ([c], r) else ([], s))")
  then have s1: "length s1 \<le> length s" by (auto split: list.splits if_splits)
  from a sg obtain i s2 f s3 y where
    "parse_int_part s1 = Some (i, s2)" "parse_frac s2 = Some (f, s3)" "parse_exp s3 = Some (y, r)"
    by (auto simp: parse_number_def split: option.splits dest!: prepend_SomeD)
  then have "length s2 < length s1" "length s3 \<le> length s2" "length r \<le> length s3"
    by (auto dest: parse_int_part_shorter parse_frac_le parse_exp_le)
  with s1 show ?thesis by simp
qed

lemma take_eq_length: "take n s = t \<Longrightarrow> length t = n \<Longrightarrow> n \<le> length s"
  by (metis length_take min.cobounded1)

lemma parse_literal_shorter: "parse_literal s = Some (v, r) \<Longrightarrow> length r < length s"
proof -
  assume a: "parse_literal s = Some (v, r)"
  consider (t) "take 4 s = ''true''" | (f) "take 4 s \<noteq> ''true''" "take 5 s = ''false''"
    | (n) "take 4 s \<noteq> ''true''" "take 5 s \<noteq> ''false''" "take 4 s = ''null''"
    | (num) "take 4 s \<noteq> ''true''" "take 5 s \<noteq> ''false''" "take 4 s \<noteq> ''null''"
    by blast
  then show ?thesis
  proof cases
    case t
    then have "4 \<le> length s" by (rule take_eq_length) simp
    with a t show ?thesis by (auto simp: parse_literal_def)
  next
    case f
    then have "5 \<le> length s" using take_eq_length [of 5 s "''false''"] by simp
    with a f show ?thesis by (auto simp: parse_literal_def)
  next
    case n
    then have "4 \<le> length s" using take_eq_length [of 4 s "''null''"] by simp
    with a n show ?thesis by (auto simp: parse_literal_def)
  next
    case num
    with a show ?thesis
      by (auto simp: parse_literal_def split: option.splits dest: parse_number_shorter)
  qed
qed


lemma parse_shorter:
  "parse_value n s = Some (v, r) \<Longrightarrow> length r < length s"
  "parse_elements n s = Some (vs, r) \<Longrightarrow> length r < length s"
  "parse_members n s = Some (ms, r) \<Longrightarrow> length r < length s"
proof (induction n s and n s and n s arbitrary: v r and vs r and ms r
        rule: parse_value_parse_elements_parse_members.induct)
  case (1 s)
  then show ?case by simp
next
  case (2 n s)
  from "2.prems" obtain c cs where s: "s = c # cs" by (cases s) auto
  have ws: "length (skip_ws cs) \<le> length cs" by (rule skip_ws_length)
  consider (obj) "c = CHR ''{''" | (arr) "c \<noteq> CHR ''{''" "c = CHR ''[''"
    | (str) "c \<noteq> CHR ''{''" "c \<noteq> CHR ''[''" "c = CHR 0x22"
    | (lit) "c \<noteq> CHR ''{''" "c \<noteq> CHR ''[''" "c \<noteq> CHR 0x22" by blast
  then show ?case
  proof cases
    case obj
    from "2.prems" s obj obtain d r0 where sk: "skip_ws cs = d # r0"
      by (cases "skip_ws cs") auto
    show ?thesis
    proof (cases "d = CHR ''}''")
      case True
      with "2.prems" s obj sk ws show ?thesis by auto
    next
      case False
      with "2.prems" s obj sk obtain ms where "parse_members n (d # r0) = Some (ms, r)"
        by (auto split: option.splits)
      from "2.IH"(1) [OF s obj sk False this] sk ws s show ?thesis by simp
    qed
  next
    case arr
    from "2.prems" s arr obtain d r0 where sk: "skip_ws cs = d # r0"
      by (cases "skip_ws cs") auto
    show ?thesis
    proof (cases "d = CHR '']''")
      case True
      with "2.prems" s arr sk ws show ?thesis by auto
    next
      case False
      with "2.prems" s arr sk obtain vs where "parse_elements n (d # r0) = Some (vs, r)"
        by (auto split: option.splits)
      from "2.IH"(2) [OF s arr sk False this] sk ws s show ?thesis by simp
    qed
  next
    case str
    with "2.prems" s obtain x where "parse_string_body cs = Some (x, r)"
      by (auto split: option.splits)
    then show ?thesis using s by (auto dest: parse_string_body_shorter)
  next
    case lit
    with "2.prems" s have "parse_literal s = Some (v, r)" by simp
    then show ?thesis by (rule parse_literal_shorter)
  qed
next
  case (3 s)
  then show ?case by simp
next
  case (4 n s)
  from "4.prems" obtain v0 r0 where pv: "parse_value n s = Some (v0, r0)"
    by (auto split: option.splits)
  have l0: "length r0 < length s" using "4.IH"(1) [OF pv] .
  from "4.prems" pv obtain c r1 where sk: "skip_ws r0 = c # r1"
    by (cases "skip_ws r0") auto
  have l1: "length r1 < length r0" using skip_ws_length [of r0] sk by simp
  show ?case
  proof (cases "c = CHR '',''")
    case True
    with "4.prems" pv sk obtain vs' where pe: "parse_elements n (skip_ws r1) = Some (vs', r)"
      by (auto split: option.splits)
    have "length r < length (skip_ws r1)"
      using "4.IH"(2) [OF pv refl sk True pe] .
    then show ?thesis using skip_ws_length [of r1] l0 l1 by simp
  next
    case False
    with "4.prems" pv sk have "r = r1" by (auto split: if_splits)
    then show ?thesis using l0 l1 by simp
  qed
next
  case (5 s)
  then show ?case by simp
next
  case (6 n s)
  from "6.prems" obtain q cs where s: "s = q # cs" by (cases s) auto
  from "6.prems" s have q: "q = CHR 0x22" by (auto split: if_splits)
  from "6.prems" s q obtain k r0 where ps: "parse_string_body cs = Some (k, r0)"
    by (auto split: option.splits)
  have l0: "length r0 < length cs" using ps by (rule parse_string_body_shorter)
  from "6.prems" s q ps obtain c r1 where sk: "skip_ws r0 = c # r1"
    by (cases "skip_ws r0") auto
  have l1: "length r1 < length r0" using skip_ws_length [of r0] sk by simp
  from "6.prems" s q ps sk have c: "c = CHR '':''" by (auto split: if_splits)
  from "6.prems" s q ps sk c obtain v0 r2 where pv: "parse_value n (skip_ws r1) = Some (v0, r2)"
    by (auto split: option.splits)
  have l2: "length r2 < length (skip_ws r1)"
    using "6.IH"(1) [OF s q ps refl sk c pv] .
  from "6.prems" s q ps sk c pv obtain d r3 where sk2: "skip_ws r2 = d # r3"
    by (cases "skip_ws r2") auto
  have l3: "length r3 < length r2" using skip_ws_length [of r2] sk2 by simp
  show ?case
  proof (cases "d = CHR '',''")
    case True
    with "6.prems" s q ps sk c pv sk2 obtain ms' where pm: "parse_members n (skip_ws r3) = Some (ms', r)"
      by (auto split: option.splits)
    have "length r < length (skip_ws r3)"
      using "6.IH"(2) [OF s q ps refl sk c pv refl sk2 True pm] .
    then show ?thesis using skip_ws_length [of r3] skip_ws_length [of r1] l0 l1 l2 l3 s by simp
  next
    case False
    with "6.prems" s q ps sk c pv sk2 have "r = r3" by (auto split: if_splits)
    then show ?thesis using skip_ws_length [of r1] l0 l1 l2 l3 s by simp
  qed
qed

lemma fuel_enough:
  "2 * length s + 1 \<le> n \<Longrightarrow> 2 * length s + 1 \<le> n' \<Longrightarrow> parse_value n s = parse_value n' s"
  "2 * length s + 2 \<le> n \<Longrightarrow> 2 * length s + 2 \<le> n' \<Longrightarrow> parse_elements n s = parse_elements n' s"
  "2 * length s + 2 \<le> n \<Longrightarrow> 2 * length s + 2 \<le> n' \<Longrightarrow> parse_members n s = parse_members n' s"
proof (induction n s and n s and n s arbitrary: n' and n' and n'
        rule: parse_value_parse_elements_parse_members.induct)
  case (1 s)
  then show ?case by simp
next
  case (2 n s)
  from "2.prems"(2) obtain m where n': "n' = Suc m" by (cases n') auto
  show ?case
  proof (cases s)
    case Nil
    then show ?thesis by (simp add: n')
  next
    case (Cons c cs)
    have ws: "length (skip_ws cs) \<le> length cs" by (rule skip_ws_length)
    consider (obj) "c = CHR ''{''" | (arr) "c \<noteq> CHR ''{''" "c = CHR ''[''"
      | (other) "c \<noteq> CHR ''{''" "c \<noteq> CHR ''[''" by blast
    then show ?thesis
    proof cases
      case obj
      show ?thesis
      proof (cases "skip_ws cs")
        case Nil
        then show ?thesis using Cons obj by (simp add: n')
      next
        case sk: (Cons d r0)
        show ?thesis
        proof (cases "d = CHR ''}''")
          case True
          then show ?thesis using Cons obj sk by (simp add: n')
        next
          case False
          have b: "2 * length (d # r0) + 2 \<le> n" "2 * length (d # r0) + 2 \<le> m"
            using "2.prems" n' Cons ws sk by simp_all
          have "parse_members n (d # r0) = parse_members m (d # r0)"
            using "2.IH"(1) [OF Cons obj sk False b] .
          then show ?thesis using Cons obj sk False by (simp add: n')
        qed
      qed
    next
      case arr
      show ?thesis
      proof (cases "skip_ws cs")
        case Nil
        then show ?thesis using Cons arr by (simp add: n')
      next
        case sk: (Cons d r0)
        show ?thesis
        proof (cases "d = CHR '']''")
          case True
          then show ?thesis using Cons arr sk by (simp add: n')
        next
          case False
          have b: "2 * length (d # r0) + 2 \<le> n" "2 * length (d # r0) + 2 \<le> m"
            using "2.prems" n' Cons ws sk by simp_all
          have "parse_elements n (d # r0) = parse_elements m (d # r0)"
            using "2.IH"(2) [OF Cons arr sk False b] .
          then show ?thesis using Cons arr sk False by (simp add: n')
        qed
      qed
    next
      case other
      then show ?thesis using Cons by (simp add: n')
    qed
  qed
next
  case (3 s)
  then show ?case by simp
next
  case (4 n s)
  from "4.prems"(2) obtain m where n': "n' = Suc m" by (cases n') auto
  have b: "2 * length s + 1 \<le> n" "2 * length s + 1 \<le> m" using "4.prems" n' by simp_all
  have pv: "parse_value m s = parse_value n s" using "4.IH"(1) [OF b] by simp
  show ?case
  proof (cases "parse_value n s")
    case None
    then show ?thesis using pv by (simp add: n')
  next
    case (Some p)
    obtain v0 r0 where p: "p = (v0, r0)" by (cases p)
    have l0: "length r0 < length s" using Some p by (auto dest: parse_shorter(1))
    show ?thesis
    proof (cases "skip_ws r0")
      case Nil
      then show ?thesis using Some p pv by (simp add: n')
    next
      case sk: (Cons c r1)
      have l1: "length r1 < length r0" using skip_ws_length [of r0] sk by simp
      show ?thesis
      proof (cases "c = CHR '',''")
        case True
        have b2: "2 * length (skip_ws r1) + 2 \<le> n" "2 * length (skip_ws r1) + 2 \<le> m"
          using "4.prems" n' l0 l1 skip_ws_length [of r1] by simp_all
        have "parse_elements n (skip_ws r1) = parse_elements m (skip_ws r1)"
          using "4.IH"(2) [OF Some [unfolded p] refl sk True b2] .
        then show ?thesis using Some p pv sk True by (simp add: n')
      next
        case False
        then show ?thesis using Some p pv sk by (simp add: n')
      qed
    qed
  qed
next
  case (5 s)
  then show ?case by simp
next
  case (6 n s)
  from "6.prems"(2) obtain m where n': "n' = Suc m" by (cases n') auto
  show ?case
  proof (cases s)
    case Nil
    then show ?thesis by (simp add: n')
  next
    case (Cons q cs)
    show ?thesis
    proof (cases "q = CHR 0x22")
      case False
      then show ?thesis using Cons by (simp add: n')
    next
      case q: True
      show ?thesis
      proof (cases "parse_string_body cs")
        case None
        then show ?thesis using Cons q by (simp add: n')
      next
        case (Some p)
        obtain k r0 where p: "p = (k, r0)" by (cases p)
        have l0: "length r0 < length cs" using Some p by (auto dest: parse_string_body_shorter)
        show ?thesis
        proof (cases "skip_ws r0")
          case Nil
          then show ?thesis using Cons q Some p by (simp add: n')
        next
          case sk: (Cons c r1)
          have l1: "length r1 < length r0" using skip_ws_length [of r0] sk by simp
          show ?thesis
          proof (cases "c = CHR '':''")
            case False
            then show ?thesis using Cons q Some p sk by (simp add: n')
          next
            case c: True
            have b: "2 * length (skip_ws r1) + 1 \<le> n" "2 * length (skip_ws r1) + 1 \<le> m"
              using "6.prems" n' Cons l0 l1 skip_ws_length [of r1] by simp_all
            have pv: "parse_value m (skip_ws r1) = parse_value n (skip_ws r1)"
              using "6.IH"(1) [OF Cons q Some [unfolded p] refl sk c b] by simp
            show ?thesis
            proof (cases "parse_value n (skip_ws r1)")
              case None
              then show ?thesis using Cons q Some p sk c pv by (simp add: n')
            next
              case pvs: (Some p2)
              obtain v0 r2 where p2: "p2 = (v0, r2)" by (cases p2)
              have l2: "length r2 < length (skip_ws r1)" using pvs p2 by (auto dest: parse_shorter(1))
              show ?thesis
              proof (cases "skip_ws r2")
                case Nil
                then show ?thesis using Cons q Some p sk c pv pvs p2 by (simp add: n')
              next
                case sk2: (Cons d r3)
                have l3: "length r3 < length r2" using skip_ws_length [of r2] sk2 by simp
                show ?thesis
                proof (cases "d = CHR '',''")
                  case True
                  have b2: "2 * length (skip_ws r3) + 2 \<le> n" "2 * length (skip_ws r3) + 2 \<le> m"
                    using "6.prems" n' Cons l0 l1 l2 l3 skip_ws_length [of r1] skip_ws_length [of r3]
                    by simp_all
                  have "parse_members n (skip_ws r3) = parse_members m (skip_ws r3)"
                    using "6.IH"(2) [OF Cons q Some [unfolded p] refl sk c pvs [unfolded p2] refl sk2 True b2] .
                  then show ?thesis using Cons q Some p sk c pv pvs p2 sk2 True by (simp add: n')
                next
                  case False
                  then show ?thesis using Cons q Some p sk c pv pvs p2 sk2 by (simp add: n')
                qed
              qed
            qed
          qed
        qed
      qed
    qed
  qed
qed

lemma JSON_parse_fuel:
  "2 * length s + 2 \<le> n \<Longrightarrow>
   JSON_parse s =
     (case parse_value n (skip_ws s) of
        None \<Rightarrow> None
      | Some (v, r) \<Rightarrow> if skip_ws r = [] then Some v else None)"
proof -
  assume "2 * length s + 2 \<le> n"
  then have "parse_value (2 * length s + 2) (skip_ws s) = parse_value n (skip_ws s)"
    using skip_ws_length [of s] by (intro fuel_enough(1)) simp_all
  then show ?thesis by (simp add: JSON_parse_def)
qed

section \<open>Properties of the remote signer\<close>

subsection \<open>Promises and listeners\<close>

lemma reject_not_Pending: "p \<noteq> Pending \<Longrightarrow> reject p r = p"
  by (cases p) simp_all

lemma apply_settle_settled: "p \<noteq> Pending \<Longrightarrow> apply_settle p s = p"
  by (cases s) (simp_all add: resolve_not_Pending reject_not_Pending)

lemma foldl_apply_settle_settled:
  "p \<noteq> Pending \<Longrightarrow> foldl (\<lambda>p l. apply_settle p (f l)) p ls = p"
  by (induction ls) (simp_all add: apply_settle_settled)

lemma fire_length: "length (fire ec r ps l) = length ps"
  by (simp add: fire_def Let_def)

lemma foldl_fire_length: "length (foldl (fire ec r) ps ls) = length ps"
  by (induction ls arbitrary: ps) (simp_all add: fire_length)

lemma fire_nth:
  "h < length ps \<Longrightarrow>
   fire ec r ps l ! h =
     (if listener_handle l = h then apply_settle (ps ! h) (run_listener ec l r) else ps ! h)"
  by (simp add: fire_def Let_def)

lemma foldl_fire_nth:
  "h < length ps \<Longrightarrow>
   foldl (fire ec r) ps ls ! h =
     foldl (\<lambda>p l. apply_settle p (run_listener ec l r)) (ps ! h)
       (filter (\<lambda>l. listener_handle l = h) ls)"
proof (induction ls arbitrary: ps)
  case Nil then show ?case by simp
next
  case (Cons l ls)
  have len: "h < length (fire ec r ps l)" using Cons.prems by (simp add: fire_length)
  show ?case using Cons.IH [OF len] Cons.prems by (simp add: fire_nth)
qed

lemma emit_length: "length (promises (emit ec this name r)) = length (promises this)"
  by (simp add: emit_def foldl_fire_length)

lemma filter_map_snd:
  "filter P (map snd xs) = map snd (filter (\<lambda>x. P (snd x)) xs)"
  by (induction xs) simp_all

lemma emit_nth:
  assumes "h < length (promises this)"
  shows "promises (emit ec this name r) ! h =
     foldl (\<lambda>p l. apply_settle p (run_listener ec l r)) (promises this ! h)
       (map snd (filter (\<lambda>x. fst x = name) (listeners_of this h)))"
proof -
  have "filter (\<lambda>l. listener_handle l = h) (map snd (filter (\<lambda>x. fst x = name) (rpc_listeners this)))
        = map snd (filter (\<lambda>x. fst x = name) (listeners_of this h))"
    by (simp add: filter_map_snd listeners_of_def conj_commute)
  then show ?thesis using assms by (simp add: emit_def foldl_fire_nth)
qed

lemma emit_listeners_of:
  "listeners_of (emit ec this name r) h = filter (\<lambda>x. fst x \<noteq> name) (listeners_of this h)"
  by (simp add: emit_def listeners_of_def conj_commute)

lemma promise_at_nth: "h < length (promises this) \<Longrightarrow> promise_at this h = promises this ! h"
  by (simp add: promise_at_def)

text \<open>A call made later leaves the promises and the listeners that exist as they are.\<close>

lemma sendRequest_length:
  "length (promises (snd (rpc_sendRequest this outcome t n ps rid))) = Suc (length (promises this))"
  by (cases outcome) (simp_all add: rpc_sendRequest_def new_promise_def rpc_once_def)

lemma sendRequest_nth:
  "h < length (promises this) \<Longrightarrow>
   promises (snd (rpc_sendRequest this outcome t n ps rid)) ! h = promises this ! h"
  by (cases outcome) (simp_all add: rpc_sendRequest_def new_promise_def rpc_once_def nth_append)

lemma sendRequest_listeners_of:
  "h < length (promises this) \<Longrightarrow>
   listeners_of (snd (rpc_sendRequest this outcome t n ps rid)) h = listeners_of this h"
  by (cases outcome) (simp_all add: rpc_sendRequest_def new_promise_def rpc_once_def listeners_of_def)

lemma sign_length:
  "length (promises (snd (sign this cid ev outcome))) = Suc (Suc (length (promises this)))"
  by (simp add: sign_def Let_def split_beta sendRequest_length)
     (simp add: new_promise_def rpc_once_def)

lemma sign_nth:
  "h < length (promises this) \<Longrightarrow> promises (snd (sign this cid ev outcome)) ! h = promises this ! h"
  by (simp add: sign_def Let_def split_beta sendRequest_nth new_promise_def rpc_once_def nth_append)

lemma sign_listeners_of:
  "h < length (promises this) \<Longrightarrow> listeners_of (snd (sign this cid ev outcome)) h = listeners_of this h"
  by (simp add: sign_def Let_def split_beta sendRequest_listeners_of new_promise_def rpc_once_def)
     (simp add: listeners_of_def)

lemma blockUntilReady_length:
  "length (promises (snd (blockUntilReady hex this cid outcome))) = Suc (Suc (length (promises this)))"
  by (simp add: blockUntilReady_def Let_def split_beta sendRequest_length)
     (simp add: new_promise_def rpc_once_def rpc_subscribe_def)

lemma blockUntilReady_nth:
  "h < length (promises this) \<Longrightarrow>
   promises (snd (blockUntilReady hex this cid outcome)) ! h = promises this ! h"
  by (simp add: blockUntilReady_def Let_def split_beta sendRequest_nth new_promise_def rpc_once_def
        rpc_subscribe_def nth_append)

lemma blockUntilReady_listeners_of:
  "h < length (promises this) \<Longrightarrow>
   listeners_of (snd (blockUntilReady hex this cid outcome)) h = listeners_of this h"
  by (simp add: blockUntilReady_def Let_def split_beta sendRequest_listeners_of new_promise_def
        rpc_once_def rpc_subscribe_def)
     (simp add: listeners_of_def)

text \<open>One activity, seen from one promise.\<close>

lemma receive_length: "length (promises (rpc_receive ec this m)) = length (promises this)"
  by (cases m) (simp_all add: emit_length)

lemma step_length: "length (promises this) \<le> length (promises (step ec hex this a))"
  by (cases a) (simp_all add: receive_length sign_length blockUntilReady_length)

lemma step_settled:
  assumes "h < length (promises this)" and "promises this ! h \<noteq> Pending"
  shows "promises (step ec hex this a) ! h = promises this ! h"
proof (cases a)
  case (Inbound m)
  then show ?thesis using assms
    by (cases m) (simp_all add: emit_nth foldl_apply_settle_settled)
next
  case (SignCall cid ev outcome)
  then show ?thesis using assms by (simp add: sign_nth)
next
  case (ConnectCall cid outcome)
  then show ?thesis using assms by (simp add: blockUntilReady_nth)
qed

lemma step_no_listener:
  assumes "listeners_of this h = []" and "h < length (promises this)"
  shows "listeners_of (step ec hex this a) h = []
         \<and> promises (step ec hex this a) ! h = promises this ! h"
proof (cases a)
  case (Inbound m)
  then show ?thesis using assms by (cases m) (simp_all add: emit_listeners_of emit_nth)
next
  case (SignCall cid ev outcome)
  then show ?thesis using assms by (simp add: sign_nth sign_listeners_of)
next
  case (ConnectCall cid outcome)
  then show ?thesis using assms by (simp add: blockUntilReady_nth blockUntilReady_listeners_of)
qed

lemma step_other:
  assumes "awaiting this h cid l" and "\<not> matches cid a"
  shows "awaiting (step ec hex this a) h cid l"
proof -
  from assms(1) have h: "h < length (promises this)" and p: "promises this ! h = Pending"
    and lh: "listener_handle l = h" and ls: "listeners_of this h = [(''response-'' @ cid, l)]"
    unfolding awaiting_def by simp_all
  have len: "h < length (promises (step ec hex this a))"
    using h step_length [of this ec hex a] by simp
  show ?thesis
  proof (cases a)
    case (Inbound m)
    show ?thesis
    proof (cases m)
      case (InRequest rid name)
      then show ?thesis using assms Inbound by simp
    next
      case (InResponse r)
      with assms(2) Inbound have ne: "resp_id r \<noteq> cid" by simp
      show ?thesis unfolding awaiting_def Inbound InResponse
        using h p lh ls ne by (simp add: emit_length emit_nth emit_listeners_of)
    qed
  next
    case (SignCall cid' ev outcome)
    then show ?thesis unfolding awaiting_def
      using h p lh ls len by (simp add: sign_nth sign_listeners_of)
  next
    case (ConnectCall cid' outcome)
    then show ?thesis unfolding awaiting_def
      using h p lh ls len by (simp add: blockUntilReady_nth blockUntilReady_listeners_of)
  qed
qed

lemma step_matching:
  assumes "awaiting this h cid l" and "resp_id r = cid"
  shows "listeners_of (step ec hex this (Inbound (InResponse r))) h = []
         \<and> h < length (promises (step ec hex this (Inbound (InResponse r))))
         \<and> promises (step ec hex this (Inbound (InResponse r))) ! h
             = apply_settle Pending (run_listener ec l r)"
proof -
  from assms(1) have h: "h < length (promises this)" and p: "promises this ! h = Pending"
    and lh: "listener_handle l = h" and ls: "listeners_of this h = [(''response-'' @ cid, l)]"
    unfolding awaiting_def by simp_all
  show ?thesis using h p ls assms(2) by (simp add: emit_length emit_nth emit_listeners_of)
qed

text \<open>Any course of activities.\<close>

lemma rpc_run_append: "rpc_run ec hex this (xs @ ys) = rpc_run ec hex (rpc_run ec hex this xs) ys"
  by (simp add: rpc_run_def)

lemma rpc_run_Cons: "rpc_run ec hex this (a # acts) = rpc_run ec hex (step ec hex this a) acts"
  by (simp add: rpc_run_def)

lemma rpc_run_Nil: "rpc_run ec hex this [] = this"
  by (simp add: rpc_run_def)

lemma run_length: "length (promises this) \<le> length (promises (rpc_run ec hex this acts))"
proof (induction acts arbitrary: this)
  case Nil then show ?case by (simp add: rpc_run_Nil)
next
  case (Cons a acts)
  show ?case using Cons.IH [of "step ec hex this a"] step_length [of this ec hex a]
    by (simp add: rpc_run_Cons)
qed

lemma run_settled:
  assumes "h < length (promises this)" and "promises this ! h \<noteq> Pending"
  shows "promises (rpc_run ec hex this acts) ! h = promises this ! h"
  using assms
proof (induction acts arbitrary: this)
  case Nil then show ?case by (simp add: rpc_run_Nil)
next
  case (Cons a acts)
  have 1: "promises (step ec hex this a) ! h = promises this ! h"
    using Cons.prems by (rule step_settled)
  have 2: "h < length (promises (step ec hex this a))"
    using Cons.prems(1) step_length [of this ec hex a] by simp
  show ?case using Cons.IH [OF 2] 1 Cons.prems(2) by (simp add: rpc_run_Cons)
qed

lemma run_no_listener:
  assumes "listeners_of this h = []" and "h < length (promises this)"
  shows "listeners_of (rpc_run ec hex this acts) h = []
         \<and> promises (rpc_run ec hex this acts) ! h = promises this ! h"
  using assms
proof (induction acts arbitrary: this)
  case Nil then show ?case by (simp add: rpc_run_Nil)
next
  case (Cons a acts)
  have 1: "listeners_of (step ec hex this a) h = []"
      "promises (step ec hex this a) ! h = promises this ! h"
    using step_no_listener [OF Cons.prems] by simp_all
  have 2: "h < length (promises (step ec hex this a))"
    using Cons.prems(2) step_length [of this ec hex a] by simp
  show ?case using Cons.IH [OF 1(1) 2] 1(2) by (simp add: rpc_run_Cons)
qed

lemma run_other:
  assumes "awaiting this h cid l" and "\<forall>a \<in> set acts. \<not> matches cid a"
  shows "awaiting (rpc_run ec hex this acts) h cid l"
  using assms
proof (induction acts arbitrary: this)
  case Nil then show ?case by (simp add: rpc_run_Nil)
next
  case (Cons a acts)
  have "awaiting (step ec hex this a) h cid l" using Cons.prems by (simp add: step_other)
  then show ?case using Cons.IH Cons.prems by (simp add: rpc_run_Cons)
qed

text \<open>
  The whole course of one promise: activities that are no response with its correlation
  id, the first such response, and whatever comes after.
\<close>

lemma run_first_response:
  assumes a: "awaiting this h cid l" and pre: "\<forall>a \<in> set pre. \<not> matches cid a" and r: "resp_id r = cid"
  shows "promises (rpc_run ec hex this (pre @ Inbound (InResponse r) # post)) ! h
           = apply_settle Pending (run_listener ec l r)"
    and "listeners_of (rpc_run ec hex this (pre @ Inbound (InResponse r) # post)) h = []"
    and "h < length (promises (rpc_run ec hex this (pre @ Inbound (InResponse r) # post)))"
proof -
  let ?s1 = "rpc_run ec hex this pre"
  let ?s2 = "step ec hex ?s1 (Inbound (InResponse r))"
  have a1: "awaiting ?s1 h cid l" using a pre by (rule run_other)
  have m: "listeners_of ?s2 h = []" "h < length (promises ?s2)"
      "promises ?s2 ! h = apply_settle Pending (run_listener ec l r)"
    using step_matching [OF a1 r] by simp_all
  have eq: "rpc_run ec hex this (pre @ Inbound (InResponse r) # post) = rpc_run ec hex ?s2 post"
    by (simp add: rpc_run_append rpc_run_Cons)
  show "promises (rpc_run ec hex this (pre @ Inbound (InResponse r) # post)) ! h
          = apply_settle Pending (run_listener ec l r)"
    unfolding eq using run_no_listener [OF m(1) m(2), of ec hex post] m(3) by simp
  show "listeners_of (rpc_run ec hex this (pre @ Inbound (InResponse r) # post)) h = []"
    unfolding eq using run_no_listener [OF m(1) m(2), of ec hex post] by simp
  show "h < length (promises (rpc_run ec hex this (pre @ Inbound (InResponse r) # post)))"
    unfolding eq using m(2) run_length [of ?s2 ec hex post] by simp
qed

text \<open>What a call leaves behind.\<close>

lemma listeners_fresh:
  assumes "handles_allocated this" and "length (promises this) \<le> k"
  shows "filter (\<lambda>x. listener_handle (snd x) = k) (rpc_listeners this) = []"
proof -
  from assms(1) have "\<forall>x \<in> set (rpc_listeners this). listener_handle (snd x) < length (promises this)"
    by (simp add: handles_allocated_def list_all_iff)
  then have "\<forall>x \<in> set (rpc_listeners this). listener_handle (snd x) \<noteq> k"
    using assms(2) by fastforce
  then show ?thesis by (simp add: filter_empty_conv)
qed

lemma sign_Sent:
  assumes "handles_allocated this" and "sign this cid ev Sent = (c, st)"
  shows "awaiting st (own_promise c) cid (SignListener (own_promise c))"
    and "awaiting st (request_promise c) cid (RequestListener (request_promise c))"
  using assms(2) listeners_fresh [OF assms(1), of "length (promises this)"]
    listeners_fresh [OF assms(1), of "Suc (length (promises this))"]
  by (auto simp: sign_def rpc_sendRequest_def new_promise_def rpc_once_def awaiting_def
        listeners_of_def Let_def nth_append)

lemma sign_SendFailed:
  assumes "sign this cid ev (SendFailed msg) = (c, st)"
  shows "request_promise c < length (promises st)"
    and "promises st ! request_promise c = Rejected (Error msg)"
  using assms
  by (auto simp: sign_def rpc_sendRequest_def new_promise_def rpc_once_def Let_def nth_append)

lemma blockUntilReady_Sent:
  assumes "handles_allocated this" and "blockUntilReady hex this cid Sent = (c, st)"
  shows "awaiting st (own_promise c) cid
           (ConnectListener (own_promise c)
              (getUser (ndk_of this) \<lparr> npub_param = npub (signer_user (localSigner this)) \<rparr>))"
    and "awaiting st (request_promise c) cid (RequestListener (request_promise c))"
  using assms(2) listeners_fresh [OF assms(1), of "length (promises this)"]
    listeners_fresh [OF assms(1), of "Suc (length (promises this))"]
  by (auto simp: blockUntilReady_def rpc_sendRequest_def new_promise_def rpc_once_def
        rpc_subscribe_def awaiting_def listeners_of_def Let_def nth_append)

lemma blockUntilReady_SendFailed:
  assumes "blockUntilReady hex this cid (SendFailed msg) = (c, st)"
  shows "request_promise c < length (promises st)"
    and "promises st ! request_promise c = Rejected (Error msg)"
  using assms
  by (auto simp: blockUntilReady_def rpc_sendRequest_def new_promise_def rpc_once_def
        rpc_subscribe_def Let_def nth_append)

text \<open>The hypothesis on the signer holds at the start and after every activity.\<close>

lemma new_allocated: "handles_allocated (NDKNip46Signer_new n rp ls g)"
  by (simp add: handles_allocated_def NDKNip46Signer_new_def)

lemma handles_allocated_receive:
  "handles_allocated this \<Longrightarrow> handles_allocated (rpc_receive ec this m)"
  by (cases m) (simp_all add: handles_allocated_def emit_def foldl_fire_length list_all_iff)

lemma handles_allocated_sign:
  "handles_allocated this \<Longrightarrow> handles_allocated (snd (sign this cid ev outcome))"
  by (cases outcome)
     (auto simp: handles_allocated_def sign_def rpc_sendRequest_def new_promise_def rpc_once_def
        Let_def list_all_iff)

lemma handles_allocated_blockUntilReady:
  "handles_allocated this \<Longrightarrow> handles_allocated (snd (blockUntilReady hex this cid outcome))"
  by (cases outcome)
     (auto simp: handles_allocated_def blockUntilReady_def rpc_sendRequest_def new_promise_def
        rpc_once_def rpc_subscribe_def Let_def list_all_iff)

lemma handles_allocated_step:
  "handles_allocated this \<Longrightarrow> handles_allocated (step ec hex this a)"
  by (cases a)
     (simp_all add: handles_allocated_receive handles_allocated_sign handles_allocated_blockUntilReady)

lemma handles_allocated_run:
  "handles_allocated this \<Longrightarrow> handles_allocated (rpc_run ec hex this acts)"
  by (induction acts arbitrary: this) (simp_all add: rpc_run_Nil rpc_run_Cons handles_allocated_step)

subsection \<open>The promise of a call\<close>

lemma JSON_parse_signed:
  "JSON_parse (''{'' @ quoted ''sig'' @ '':'' @ quoted ''abc'' @ ''}'') = Some (JObject [(''sig'', JString ''abc'')])"
  by code_simp

lemma get_sig_None: "get_sig j = None \<longleftrightarrow> j = JNull"
  by (cases j) simp_all

lemma sign_listener_Thrown:
  "run_listener ec (SignListener h) r = Thrown \<longleftrightarrow>
     \<not> truthy (error r) \<and> (JSON_parse (result r) = None \<or> JSON_parse (result r) = Some JNull)"
  by (auto simp: get_sig_None split: option.splits)

lemma apply_settle_Pending: "settled (apply_settle Pending s) \<longleftrightarrow> s \<noteq> Thrown"
  by (cases s) simp_all

lemma truthy_carries: "truthy e \<Longrightarrow> carries_error ec e"
  by (auto simp: truthy_def carries_error_def split: option.splits)

text \<open>The promise of a call, from the two promises it is made of.\<close>

lemma call_promise_Pending:
  "awaiting this (request_promise c) cid l \<Longrightarrow> call_promise this c = Pending"
  by (simp add: call_promise_def awaiting_def promise_at_def)

lemma call_promise_Rejected:
  "request_promise c < length (promises this) \<Longrightarrow>
   promises this ! request_promise c = Rejected e \<Longrightarrow> call_promise this c = Rejected e"
  by (simp add: call_promise_def promise_at_def)

lemma call_promise_Resolved:
  "request_promise c < length (promises this) \<Longrightarrow>
   promises this ! request_promise c = Resolved v \<Longrightarrow>
   own_promise c < length (promises this) \<Longrightarrow>
   call_promise this c = promises this ! own_promise c"
  by (simp add: call_promise_def promise_at_def)

text \<open>
  A call whose request was sent, after the first response with its correlation id: a
  response with a non-empty error rejects the call with it, and after a response without an
  error field the call follows the promise that the listener of the signer holds.
\<close>

lemma call_after_response:
  assumes own: "awaiting st (own_promise c) cid l"
    and req: "awaiting st (request_promise c) cid (RequestListener (request_promise c))"
    and pre: "\<forall>a \<in> set pre. \<not> matches cid a" and r: "resp_id r = cid"
  shows "truthy (error r) \<Longrightarrow>
           call_promise (rpc_run ec hex st (pre @ Inbound (InResponse r) # post)) c
             = Rejected (Payload (error r))"
    and "error r = None \<Longrightarrow>
           call_promise (rpc_run ec hex st (pre @ Inbound (InResponse r) # post)) c
             = apply_settle Pending (run_listener ec l r)"
proof -
  let ?s = "rpc_run ec hex st (pre @ Inbound (InResponse r) # post)"
  have o: "promises ?s ! own_promise c = apply_settle Pending (run_listener ec l r)"
      "own_promise c < length (promises ?s)"
    using run_first_response(1,3) [OF own pre r] by simp_all
  have q: "promises ?s ! request_promise c
             = apply_settle Pending (run_listener ec (RequestListener (request_promise c)) r)"
      "request_promise c < length (promises ?s)"
    using run_first_response(1,3) [OF req pre r] by simp_all
  show "call_promise ?s c = Rejected (Payload (error r))" if "truthy (error r)"
  proof -
    have "promises ?s ! request_promise c = Rejected (Payload (error r))"
      using q(1) truthy_carries [OF that, of ec] by simp
    with q(2) show ?thesis by (rule call_promise_Rejected)
  qed
  show "call_promise ?s c = apply_settle Pending (run_listener ec l r)" if "error r = None"
  proof -
    have "promises ?s ! request_promise c = Resolved (ResultValue (result r))"
      using q(1) that by (simp add: carries_error_def)
    from call_promise_Resolved [OF q(2) this o(2)] o(1) show ?thesis by simp
  qed
qed

lemma call_send_failed:
  assumes "request_promise c < length (promises st)"
    and "promises st ! request_promise c = Rejected (Error msg)"
  shows "call_promise (rpc_run ec hex st acts) c = Rejected (Error msg)"
proof -
  have "promises (rpc_run ec hex st acts) ! request_promise c = Rejected (Error msg)"
    using run_settled [OF assms(1), of ec hex acts] assms(2) by simp
  moreover have "request_promise c < length (promises (rpc_run ec hex st acts))"
    using assms(1) run_length [of st ec hex acts] by simp
  ultimately show ?thesis by (simp add: call_promise_Rejected)
qed

subsection \<open>sign\<close>

text \<open>
  Claim C3, as the code has it by design. Take a call of \<open>sign\<close>, any further calls and
  inbound events after it, and the first response that bears the correlation id of the
  call. When the request was sent, the promise of the call is pending until that response;
  if the response carries a non-empty error, the promise is rejected with that error, and
  stays so whatever comes later; if it carries no error field and its result parses as JSON
  to a value whose \<open>sig\<close> can be read, the promise resolves with that \<open>sig\<close>, whatever it
  holds. When sending the request failed, the promise is rejected with that failure,
  whatever arrives. Nothing is said of a result that does not parse or parses to \<open>null\<close>,
  nor of an error field that holds the empty string.
\<close>

theorem sign_response:
  assumes "handles_allocated this" and "sign this cid ev outcome = (c, st)"
    and "\<forall>a \<in> set pre. \<not> matches cid a" and "resp_id r = cid"
  shows "(outcome = Sent \<longrightarrow>
            call_promise (rpc_run ec hex st pre) c = Pending
          \<and> (truthy (error r) \<longrightarrow>
               call_promise (rpc_run ec hex st (pre @ Inbound (InResponse r) # post)) c
                 = Rejected (Payload (error r)))
          \<and> (error r = None \<longrightarrow> JSON_parse (result r) = Some json \<longrightarrow> get_sig json = Some sig \<longrightarrow>
               call_promise (rpc_run ec hex st (pre @ Inbound (InResponse r) # post)) c
                 = Resolved (SigValue sig)))
       \<and> (outcome = SendFailed msg \<longrightarrow>
            call_promise (rpc_run ec hex st acts) c = Rejected (Error msg))"
proof (intro conjI impI)
  assume sent: "outcome = Sent"
  have own: "awaiting st (own_promise c) cid (SignListener (own_promise c))"
    and req: "awaiting st (request_promise c) cid (RequestListener (request_promise c))"
    using sign_Sent [OF assms(1)] assms(2) sent by simp_all
  have "awaiting (rpc_run ec hex st pre) (request_promise c) cid (RequestListener (request_promise c))"
    using req assms(3) by (rule run_other)
  then show "call_promise (rpc_run ec hex st pre) c = Pending" by (rule call_promise_Pending)
  show "call_promise (rpc_run ec hex st (pre @ Inbound (InResponse r) # post)) c
          = Rejected (Payload (error r))" if "truthy (error r)"
    using call_after_response(1) [OF own req assms(3,4) that] .
  show "call_promise (rpc_run ec hex st (pre @ Inbound (InResponse r) # post)) c
          = Resolved (SigValue sig)"
    if "error r = None" "JSON_parse (result r) = Some json" "get_sig json = Some sig"
    using call_after_response(2) [OF own req assms(3,4) that(1), of ec hex post] that
    by (simp add: truthy_def)
next
  assume "outcome = SendFailed msg"
  then have call: "sign this cid ev (SendFailed msg) = (c, st)" using assms(2) by simp
  show "call_promise (rpc_run ec hex st acts) c = Rejected (Error msg)"
    using sign_SendFailed [OF call] by (rule call_send_failed)
qed

theorem sign_response_witness:
  "let this = (NDKNip46Signer_new 1 ''remote'' None
                 \<lparr> signer_user = \<lparr> npub = ''npub1local'', user_ndk = None \<rparr> \<rparr> :: string NDKNip46Signer);
       call = sign this ''k3x9'' ''event'' Sent;
       failed = sign this ''k3x9'' ''event'' (SendFailed ''send failed'');
       before = [Inbound (InResponse \<lparr> resp_id = ''zzzz'', result = ''ack'', error = Some ''denied'' \<rparr>),
                 SignCall ''k3x9'' ''next event'' Sent];
       denied = \<lparr> resp_id = ''k3x9'', result = [], error = Some ''denied'' \<rparr>;
       signed = \<lparr> resp_id = ''k3x9'', result = ''{'' @ quoted ''sig'' @ '':'' @ quoted ''abc'' @ ''}'',
                  error = None \<rparr>
   in handles_allocated this
      \<and> list_all (\<lambda>a. \<not> matches ''k3x9'' a) before
      \<and> call_promise (rpc_run False npub (snd call) before) (fst call) = Pending
      \<and> truthy (error denied)
      \<and> call_promise (rpc_run False npub (snd call) (before @ [Inbound (InResponse denied)])) (fst call)
          = Rejected (Payload (Some ''denied''))
      \<and> error signed = None
      \<and> call_promise (rpc_run False npub (snd call) (before @ [Inbound (InResponse signed)])) (fst call)
          = Resolved (SigValue (Value (JString ''abc'')))
      \<and> call_promise (rpc_run False npub (snd failed) [Inbound (InResponse signed)]) (fst failed)
          = Rejected (Error ''send failed'')"
proof -
  define this :: "string NDKNip46Signer" where
    "this = NDKNip46Signer_new 1 ''remote'' None \<lparr> signer_user = \<lparr> npub = ''npub1local'', user_ndk = None \<rparr> \<rparr>"
  define call where "call = sign this ''k3x9'' ''event'' Sent"
  define failed where "failed = sign this ''k3x9'' ''event'' (SendFailed ''send failed'')"
  define before :: "string activity list" where
    "before = [Inbound (InResponse \<lparr> resp_id = ''zzzz'', result = ''ack'', error = Some ''denied'' \<rparr>),
               SignCall ''k3x9'' ''next event'' Sent]"
  define denied where "denied = \<lparr> resp_id = ''k3x9'', result = [], error = Some ''denied'' \<rparr>"
  define signed where
    "signed = \<lparr> resp_id = ''k3x9'', result = ''{'' @ quoted ''sig'' @ '':'' @ quoted ''abc'' @ ''}'',
                error = None \<rparr>"
  have al: "handles_allocated this" unfolding this_def by (rule new_allocated)
  have c: "sign this ''k3x9'' ''event'' Sent = (fst call, snd call)" by (simp add: call_def)
  have f: "sign this ''k3x9'' ''event'' (SendFailed ''send failed'') = (fst failed, snd failed)"
    by (simp add: failed_def)
  have pre: "\<forall>a \<in> set before. \<not> matches ''k3x9'' a" by (simp add: before_def)
  have none: "\<forall>a \<in> set ([] :: string activity list). \<not> matches ''k3x9'' a" by simp
  have rd: "resp_id denied = ''k3x9''" by (simp add: denied_def)
  have rs: "resp_id signed = ''k3x9''" by (simp add: signed_def)
  have 1: "call_promise (rpc_run False npub (snd call) before) (fst call) = Pending"
    using sign_response [OF al c pre rd, where ec = False and hex = npub] by simp
  have 2: "call_promise (rpc_run False npub (snd call) (before @ [Inbound (InResponse denied)])) (fst call)
          = Rejected (Payload (Some ''denied''))"
    using sign_response [OF al c pre rd, where ec = False and hex = npub and post = "[]"]
    by (simp add: denied_def truthy_def)
  have 3: "call_promise (rpc_run False npub (snd call) (before @ [Inbound (InResponse signed)])) (fst call)
          = Resolved (SigValue (Value (JString ''abc'')))"
    using sign_response [OF al c pre rs, where ec = False and hex = npub and post = "[]"
        and json = "JObject [(''sig'', JString ''abc'')]" and sig = "Value (JString ''abc'')"]
      JSON_parse_signed
    by (simp add: signed_def)
  have 4: "call_promise (rpc_run False npub (snd failed) [Inbound (InResponse signed)]) (fst failed)
          = Rejected (Error ''send failed'')"
    using sign_response [OF al f none rs, where ec = False and hex = npub
        and msg = "''send failed''" and acts = "[Inbound (InResponse signed)]"]
    by simp
  have 5: "list_all (\<lambda>a. \<not> matches ''k3x9'' a) before" using pre by (simp add: list_all_iff)
  show ?thesis
    unfolding Let_def this_def [symmetric] call_def [symmetric] failed_def [symmetric]
      before_def [symmetric] denied_def [symmetric] signed_def [symmetric]
    using al 1 2 3 4 5 by (simp add: denied_def signed_def truthy_def)
qed

text \<open>
  The claim as stated fails in two ways. A response without an error field whose result is
  the object \<open>{}\<close> resolves the call with \<open>undefined\<close>, which is no signature string: the
  payload is not validated. And when sending the request failed, a response without an error
  field that holds a signature does not resolve the call: it was rejected with the failure.
\<close>

theorem sign_response_counterexample:
  "call_promise
     (rpc_run False npub
        (snd (sign (NDKNip46Signer_new 1 ''remote'' None
                      \<lparr> signer_user = \<lparr> npub = ''npub1local'', user_ndk = None \<rparr> \<rparr>)
                ''k3x9'' ''event'' Sent))
        [Inbound (InResponse \<lparr> resp_id = ''k3x9'', result = ''{}'', error = None \<rparr>)])
     (fst (sign (NDKNip46Signer_new 1 ''remote'' None
                   \<lparr> signer_user = \<lparr> npub = ''npub1local'', user_ndk = None \<rparr> \<rparr>)
             ''k3x9'' ''event'' Sent))
     = Resolved (SigValue Undefined)
   \<and> call_promise
     (rpc_run False npub
        (snd (sign (NDKNip46Signer_new 1 ''remote'' None
                      \<lparr> signer_user = \<lparr> npub = ''npub1local'', user_ndk = None \<rparr> \<rparr>)
                ''k3x9'' ''event'' (SendFailed ''send failed'')))
        [Inbound (InResponse \<lparr> resp_id = ''k3x9'',
                    result = ''{'' @ quoted ''sig'' @ '':'' @ quoted ''abc'' @ ''}'', error = None \<rparr>)])
     (fst (sign (NDKNip46Signer_new 1 ''remote'' None
                   \<lparr> signer_user = \<lparr> npub = ''npub1local'', user_ndk = None \<rparr> \<rparr>)
             ''k3x9'' ''event'' (SendFailed ''send failed'')))
     = Rejected (Error ''send failed'')"
  by code_simp

subsection \<open>blockUntilReady\<close>

text \<open>
  Claim C4, as the code has it. Take a call of \<open>blockUntilReady\<close>, any further calls and
  inbound events after it, and the first response that bears the correlation id of the
  call, its result being \<open>ack\<close>. When the request was sent, the promise of the call is
  pending until that response; if the response carries no error field, the promise resolves
  with the user built from the \<open>npub\<close> of the local signer's user, and the remote public key
  has no part in it: with any other remote public key it resolves with the same user; if
  the response carries a non-empty error, the promise is rejected with that error. When
  sending the request failed, the promise is rejected with that failure.
\<close>

theorem blockUntilReady_ack:
  assumes "handles_allocated this" and "blockUntilReady hex this cid outcome = (c, st)"
    and "\<forall>a \<in> set pre. \<not> matches cid a" and "resp_id r = cid" and "result r = ''ack''"
  shows "(outcome = Sent \<longrightarrow>
            call_promise (rpc_run ec hex st pre) c = Pending
          \<and> (error r = None \<longrightarrow>
               call_promise (rpc_run ec hex st (pre @ Inbound (InResponse r) # post)) c
                 = Resolved (UserValue \<lparr> npub = npub (user this), user_ndk = Some (ndk_of this) \<rparr>)
               \<and> call_promise
                   (rpc_run ec hex (snd (blockUntilReady hex (this\<lparr>remotePubkey := other\<rparr>) cid Sent))
                      (pre @ Inbound (InResponse r) # post))
                   (fst (blockUntilReady hex (this\<lparr>remotePubkey := other\<rparr>) cid Sent))
                 = Resolved (UserValue \<lparr> npub = npub (user this), user_ndk = Some (ndk_of this) \<rparr>))
          \<and> (truthy (error r) \<longrightarrow>
               call_promise (rpc_run ec hex st (pre @ Inbound (InResponse r) # post)) c
                 = Rejected (Payload (error r))))
       \<and> (outcome = SendFailed msg \<longrightarrow>
            call_promise (rpc_run ec hex st acts) c = Rejected (Error msg))"
proof -
  have resolved: "call_promise (rpc_run ec hex st' (pre @ Inbound (InResponse r) # post)) c'
           = Resolved (UserValue \<lparr> npub = npub (user this'), user_ndk = Some (ndk_of this') \<rparr>)"
    if al: "handles_allocated this'" and call: "blockUntilReady hex this' cid Sent = (c', st')"
      and none: "error r = None"
    for this' :: "'a NDKNip46Signer" and c' st'
  proof -
    let ?u = "getUser (ndk_of this') \<lparr> npub_param = npub (signer_user (localSigner this')) \<rparr>"
    have own: "awaiting st' (own_promise c') cid (ConnectListener (own_promise c') ?u)"
      and req: "awaiting st' (request_promise c') cid (RequestListener (request_promise c'))"
      using blockUntilReady_Sent [OF al call] by simp_all
    show ?thesis
      using call_after_response(2) [OF own req assms(3,4) none, of ec hex post] assms(5)
      by (simp add: getUser_def user_def)
  qed
  show ?thesis
  proof (intro conjI impI)
    assume sent: "outcome = Sent"
    have own: "awaiting st (own_promise c) cid
                 (ConnectListener (own_promise c)
                    (getUser (ndk_of this) \<lparr> npub_param = npub (signer_user (localSigner this)) \<rparr>))"
      and req: "awaiting st (request_promise c) cid (RequestListener (request_promise c))"
      using blockUntilReady_Sent [OF assms(1)] assms(2) sent by simp_all
    have "awaiting (rpc_run ec hex st pre) (request_promise c) cid (RequestListener (request_promise c))"
      using req assms(3) by (rule run_other)
    then show "call_promise (rpc_run ec hex st pre) c = Pending" by (rule call_promise_Pending)
    show "call_promise (rpc_run ec hex st (pre @ Inbound (InResponse r) # post)) c
            = Rejected (Payload (error r))" if "truthy (error r)"
      using call_after_response(1) [OF own req assms(3,4) that] .
    show "call_promise (rpc_run ec hex st (pre @ Inbound (InResponse r) # post)) c
            = Resolved (UserValue \<lparr> npub = npub (user this), user_ndk = Some (ndk_of this) \<rparr>)"
      if "error r = None"
      using resolved [OF assms(1) _ that] assms(2) sent by simp
    show "call_promise
            (rpc_run ec hex (snd (blockUntilReady hex (this\<lparr>remotePubkey := other\<rparr>) cid Sent))
               (pre @ Inbound (InResponse r) # post))
            (fst (blockUntilReady hex (this\<lparr>remotePubkey := other\<rparr>) cid Sent))
          = Resolved (UserValue \<lparr> npub = npub (user this), user_ndk = Some (ndk_of this) \<rparr>)"
      if none: "error r = None"
    proof -
      have al': "handles_allocated (this\<lparr>remotePubkey := other\<rparr>)"
        using assms(1) by (simp add: handles_allocated_def)
      have "call_promise
            (rpc_run ec hex (snd (blockUntilReady hex (this\<lparr>remotePubkey := other\<rparr>) cid Sent))
               (pre @ Inbound (InResponse r) # post))
            (fst (blockUntilReady hex (this\<lparr>remotePubkey := other\<rparr>) cid Sent))
          = Resolved (UserValue \<lparr> npub = npub (user (this\<lparr>remotePubkey := other\<rparr>)),
                                  user_ndk = Some (ndk_of (this\<lparr>remotePubkey := other\<rparr>)) \<rparr>)"
        by (rule resolved [OF al' _ none]) simp
      then show ?thesis by (simp add: user_def)
    qed
  next
    assume "outcome = SendFailed msg"
    then have call: "blockUntilReady hex this cid (SendFailed msg) = (c, st)" using assms(2) by simp
    show "call_promise (rpc_run ec hex st acts) c = Rejected (Error msg)"
      using blockUntilReady_SendFailed [OF call] by (rule call_send_failed)
  qed
qed

theorem blockUntilReady_ack_witness:
  "let this = (NDKNip46Signer_new 1 ''remote'' None
                 \<lparr> signer_user = \<lparr> npub = ''npub1local'', user_ndk = None \<rparr> \<rparr> :: string NDKNip46Signer);
       call = blockUntilReady npub this ''k3x9'' Sent;
       failed = blockUntilReady npub this ''k3x9'' (SendFailed ''send failed'');
       before = [Inbound (InResponse \<lparr> resp_id = ''zzzz'', result = ''ack'', error = None \<rparr>),
                 SignCall ''k3x9'' ''event'' Sent];
       ack = \<lparr> resp_id = ''k3x9'', result = ''ack'', error = None \<rparr>
   in handles_allocated this
      \<and> list_all (\<lambda>a. \<not> matches ''k3x9'' a) before
      \<and> call_promise (rpc_run False npub (snd call) before) (fst call) = Pending
      \<and> error ack = None
      \<and> call_promise (rpc_run False npub (snd call) (before @ [Inbound (InResponse ack)])) (fst call)
          = Resolved (UserValue \<lparr> npub = ''npub1local'', user_ndk = Some 1 \<rparr>)
      \<and> call_promise (rpc_run False npub (snd failed) [Inbound (InResponse ack)]) (fst failed)
          = Rejected (Error ''send failed'')"
proof -
  define this :: "string NDKNip46Signer" where
    "this = NDKNip46Signer_new 1 ''remote'' None \<lparr> signer_user = \<lparr> npub = ''npub1local'', user_ndk = None \<rparr> \<rparr>"
  define call where "call = blockUntilReady npub this ''k3x9'' Sent"
  define failed where "failed = blockUntilReady npub this ''k3x9'' (SendFailed ''send failed'')"
  define before :: "string activity list" where
    "before = [Inbound (InResponse \<lparr> resp_id = ''zzzz'', result = ''ack'', error = None \<rparr>),
               SignCall ''k3x9'' ''event'' Sent]"
  define ack where "ack = \<lparr> resp_id = ''k3x9'', result = ''ack'', error = None \<rparr>"
  have al: "handles_allocated this" unfolding this_def by (rule new_allocated)
  have c: "blockUntilReady npub this ''k3x9'' Sent = (fst call, snd call)" by (simp add: call_def)
  have f: "blockUntilReady npub this ''k3x9'' (SendFailed ''send failed'') = (fst failed, snd failed)"
    by (simp add: failed_def)
  have pre: "\<forall>a \<in> set before. \<not> matches ''k3x9'' a" by (simp add: before_def)
  have none: "\<forall>a \<in> set ([] :: string activity list). \<not> matches ''k3x9'' a" by simp
  have ra: "resp_id ack = ''k3x9''" and res: "result ack = ''ack''" by (simp_all add: ack_def)
  have 1: "call_promise (rpc_run False npub (snd call) before) (fst call) = Pending"
    using blockUntilReady_ack [OF al c pre ra res, where ec = False] by simp
  have 2: "call_promise (rpc_run False npub (snd call) (before @ [Inbound (InResponse ack)])) (fst call)
          = Resolved (UserValue \<lparr> npub = ''npub1local'', user_ndk = Some 1 \<rparr>)"
    using blockUntilReady_ack [OF al c pre ra res, where ec = False and post = "[]"]
    by (simp add: ack_def this_def user_def NDKNip46Signer_new_def)
  have 3: "call_promise (rpc_run False npub (snd failed) [Inbound (InResponse ack)]) (fst failed)
          = Rejected (Error ''send failed'')"
    using blockUntilReady_ack [OF al f none ra res, where ec = False
        and msg = "''send failed''" and acts = "[Inbound (InResponse ack)]"]
    by simp
  have 4: "list_all (\<lambda>a. \<not> matches ''k3x9'' a) before" using pre by (simp add: list_all_iff)
  show ?thesis
    unfolding Let_def this_def [symmetric] call_def [symmetric] failed_def [symmetric]
      before_def [symmetric] ack_def [symmetric]
    using al 1 2 3 4 by (simp add: ack_def)
qed

text \<open>
  The claim as stated fails for a response whose result is \<open>ack\<close> and which carries an
  error: the completion handle of \<open>sendRequest\<close>, which the call awaits, is rejected with
  that error, and so is the call. It fails as well when sending the request failed.
\<close>

theorem blockUntilReady_ack_counterexample:
  "call_promise
     (rpc_run False npub
        (snd (blockUntilReady npub
                (NDKNip46Signer_new 1 ''remote'' None
                   \<lparr> signer_user = \<lparr> npub = ''npub1local'', user_ndk = None \<rparr> \<rparr> :: string NDKNip46Signer)
                ''k3x9'' Sent))
        [Inbound (InResponse \<lparr> resp_id = ''k3x9'', result = ''ack'', error = Some ''boom'' \<rparr>)])
     (fst (blockUntilReady npub
             (NDKNip46Signer_new 1 ''remote'' None
                \<lparr> signer_user = \<lparr> npub = ''npub1local'', user_ndk = None \<rparr> \<rparr> :: string NDKNip46Signer)
             ''k3x9'' Sent))
     = Rejected (Payload (Some ''boom''))
   \<and> call_promise
     (rpc_run False npub
        (snd (blockUntilReady npub
                (NDKNip46Signer_new 1 ''remote'' None
                   \<lparr> signer_user = \<lparr> npub = ''npub1local'', user_ndk = None \<rparr> \<rparr> :: string NDKNip46Signer)
                ''k3x9'' (SendFailed ''send failed'')))
        [Inbound (InResponse \<lparr> resp_id = ''k3x9'', result = ''ack'', error = None \<rparr>)])
     (fst (blockUntilReady npub
             (NDKNip46Signer_new 1 ''remote'' None
                \<lparr> signer_user = \<lparr> npub = ''npub1local'', user_ndk = None \<rparr> \<rparr> :: string NDKNip46Signer)
             ''k3x9'' (SendFailed ''send failed'')))
     = Rejected (Error ''send failed'')"
  by (simp add: blockUntilReady_def rpc_sendRequest_def new_promise_def rpc_once_def
        rpc_subscribe_def rpc_run_def emit_def fire_def call_promise_def promise_at_def
        NDKNip46Signer_new_def getUser_def Let_def carries_error_def)

subsection \<open>At most one fulfilment\<close>

text \<open>
  Claim C7 does not hold of the code. After a call of \<open>sign\<close>, the first response that
  bears the correlation id of the call removes the listener, by \<open>once\<close>; when the response
  has no error and its result is \<open>null\<close>, or is no JSON, the listener then throws before it
  resolves or rejects. The promise that the listener holds is left pending with no listener
  registered for it, and a second, well-formed response with the same correlation id finds
  it so. (The lemmas \<open>run_other\<close>, \<open>run_first_response\<close> and \<open>run_no_listener\<close> above give
  the rest of the claim: other correlation ids have no effect, the first matching response
  removes the listener, and nothing that comes later changes the promise.)
\<close>

theorem sign_handle_left_pending:
  "promise_at
     (rpc_run False npub
        (snd (sign (NDKNip46Signer_new 1 ''remote'' None
                      \<lparr> signer_user = \<lparr> npub = ''npub1local'', user_ndk = None \<rparr> \<rparr>)
                ''k3x9'' ''event'' Sent))
        [Inbound (InResponse \<lparr> resp_id = ''k3x9'', result = ''null'', error = None \<rparr>)])
     (own_promise (fst (sign (NDKNip46Signer_new 1 ''remote'' None
                      \<lparr> signer_user = \<lparr> npub = ''npub1local'', user_ndk = None \<rparr> \<rparr>)
                ''k3x9'' ''event'' Sent)))
     = Pending
   \<and> listeners_of
     (rpc_run False npub
        (snd (sign (NDKNip46Signer_new 1 ''remote'' None
                      \<lparr> signer_user = \<lparr> npub = ''npub1local'', user_ndk = None \<rparr> \<rparr>)
                ''k3x9'' ''event'' Sent))
        [Inbound (InResponse \<lparr> resp_id = ''k3x9'', result = ''null'', error = None \<rparr>)])
     (own_promise (fst (sign (NDKNip46Signer_new 1 ''remote'' None
                      \<lparr> signer_user = \<lparr> npub = ''npub1local'', user_ndk = None \<rparr> \<rparr>)
                ''k3x9'' ''event'' Sent)))
     = []
   \<and> promise_at
     (rpc_run False npub
        (snd (sign (NDKNip46Signer_new 1 ''remote'' None
                      \<lparr> signer_user = \<lparr> npub = ''npub1local'', user_ndk = None \<rparr> \<rparr>)
                ''k3x9'' ''event'' Sent))
        [Inbound (InResponse \<lparr> resp_id = ''k3x9'', result = ''null'', error = None \<rparr>),
         Inbound (InResponse \<lparr> resp_id = ''k3x9'',
                    result = ''{'' @ quoted ''sig'' @ '':'' @ quoted ''abc'' @ ''}'', error = None \<rparr>)])
     (own_promise (fst (sign (NDKNip46Signer_new 1 ''remote'' None
                      \<lparr> signer_user = \<lparr> npub = ''npub1local'', user_ndk = None \<rparr> \<rparr>)
                ''k3x9'' ''event'' Sent)))
     = Pending
   \<and> promise_at
     (rpc_run False npub
        (snd (sign (NDKNip46Signer_new 1 ''remote'' None
                      \<lparr> signer_user = \<lparr> npub = ''npub1local'', user_ndk = None \<rparr> \<rparr>)
                ''k3x9'' ''event'' Sent))
        [Inbound (InResponse \<lparr> resp_id = ''k3x9'', result = ''oops'', error = None \<rparr>)])
     (own_promise (fst (sign (NDKNip46Signer_new 1 ''remote'' None
                      \<lparr> signer_user = \<lparr> npub = ''npub1local'', user_ndk = None \<rparr> \<rparr>)
                ''k3x9'' ''event'' Sent)))
     = Pending"
  by code_simp

subsection \<open>encrypt and decrypt\<close>

text \<open>
  Claim C8. For every input, \<open>encrypt\<close> and \<open>decrypt\<close> return a promise rejected with the
  error \<open>not implemented\<close>, and leave the signer as it was: no request is handed to the
  RPC layer.
\<close>

theorem encrypt_decrypt_not_implemented:
  "fst (encrypt this recipient v) = Rejected (Error ''not implemented'')
   \<and> fst (decrypt this sender v) = Rejected (Error ''not implemented'')
   \<and> rpc_outbox (snd (encrypt this recipient v)) = rpc_outbox this
   \<and> rpc_outbox (snd (decrypt this sender v)) = rpc_outbox this
   \<and> snd (encrypt this recipient v) = this
   \<and> snd (decrypt this sender v) = this"
  by (simp add: encrypt_def decrypt_def)

theorem encrypt_decrypt_not_implemented_witness:
  "fst (encrypt (NDKNip46Signer_new 1 ''remote'' None
                  \<lparr> signer_user = \<lparr> npub = ''npub1local'', user_ndk = None \<rparr> \<rparr> :: string NDKNip46Signer)
          \<lparr> npub = ''npub1peer'', user_ndk = None \<rparr> ''hello'')
     = Rejected (Error ''not implemented'')
   \<and> rpc_outbox (snd (decrypt (NDKNip46Signer_new 1 ''remote'' None
                  \<lparr> signer_user = \<lparr> npub = ''npub1local'', user_ndk = None \<rparr> \<rparr> :: string NDKNip46Signer)
          \<lparr> npub = ''npub1peer'', user_ndk = None \<rparr> ''hello'')) = []"
  using encrypt_decrypt_not_implemented
          [of "NDKNip46Signer_new 1 ''remote'' None
                  \<lparr> signer_user = \<lparr> npub = ''npub1local'', user_ndk = None \<rparr> \<rparr> :: string NDKNip46Signer"
              "\<lparr> npub = ''npub1peer'', user_ndk = None \<rparr>" "''hello''"
              "\<lparr> npub = ''npub1peer'', user_ndk = None \<rparr>"]
  by (simp add: NDKNip46Signer_new_def)

subsection \<open>user\<close>

text \<open>
  Claim C10. \<open>user\<close> returns the user of the local signer, whatever the remote public
  key is; and the local signer is the one given to the constructor, or, when none is given,
  the one that \<open>NDKPrivateKeySigner.generate()\<close> returns.
\<close>

theorem user_is_local_identity:
  "user (NDKNip46Signer_new n rp None generated :: 'ev NDKNip46Signer) = signer_user generated
   \<and> localSigner (NDKNip46Signer_new n rp None generated :: 'ev NDKNip46Signer) = generated
   \<and> user (NDKNip46Signer_new n rp (Some given) generated :: 'ev NDKNip46Signer) = signer_user given
   \<and> user ((this :: 'ev NDKNip46Signer)\<lparr>remotePubkey := other\<rparr>) = user this
   \<and> user this = signer_user (localSigner this)"
  by (simp add: user_def NDKNip46Signer_new_def)

theorem user_is_local_identity_witness:
  "user (NDKNip46Signer_new 1 ''remote'' None
          \<lparr> signer_user = \<lparr> npub = ''npub1fresh'', user_ndk = None \<rparr> \<rparr> :: string NDKNip46Signer)
     = \<lparr> npub = ''npub1fresh'', user_ndk = None \<rparr>
   \<and> user (NDKNip46Signer_new 1 ''remote'' (Some \<lparr> signer_user = \<lparr> npub = ''npub1given'', user_ndk = None \<rparr> \<rparr>)
          \<lparr> signer_user = \<lparr> npub = ''npub1fresh'', user_ndk = None \<rparr> \<rparr> :: string NDKNip46Signer)
     = \<lparr> npub = ''npub1given'', user_ndk = None \<rparr>"
  using user_is_local_identity
          [where ?'ev = string and n = 1 and rp = "''remote''"
             and generated = "\<lparr> signer_user = \<lparr> npub = ''npub1fresh'', user_ndk = None \<rparr> \<rparr>"
             and given = "\<lparr> signer_user = \<lparr> npub = ''npub1given'', user_ndk = None \<rparr> \<rparr>"
             and this = "NDKNip46Signer_new 1 ''remote'' None
                           \<lparr> signer_user = \<lparr> npub = ''npub1fresh'', user_ndk = None \<rparr> \<rparr>"
             and other = "''elsewhere''"]
  by simp

end
